theory Spec2Isabelle
  imports Complex_Main "HOL-Library.Log_Nat"
begin

section \<open>Python floats: IEEE-754 binary64 with round-to-nearest-even\<close>

text \<open>
  The program (\<^verbatim>\<open>naive_mandelbrot.py\<close>) computes with Python \<^verbatim>\<open>float\<close> (binary64),
  \<^verbatim>\<open>complex\<close> (a pair of floats) and \<^verbatim>\<open>int\<close> (unbounded).  The arguments have the
  types of the annotations: the bounds are floats, the sizes and \<^verbatim>\<open>max_iter\<close> are ints.
  Lists are as long as the program makes them: running out of memory is not modelled.

  A float is modelled by its value: a finite float is the rational number it denotes,
  and there are the two infinities and NaN.  The two zeros \<^verbatim>\<open>0.0\<close> and \<^verbatim>\<open>-0.0\<close> are
  identified: the program only adds, subtracts, multiplies, compares with \<^verbatim>\<open>>\<close> and
  divides by a converted integer (where a zero divisor raises whatever its sign), and
  none of these tells the two zeros apart in anything but the sign of a zero result.
  Every arithmetic result is rounded to the nearest binary64 number, ties to the even
  significand; a result that rounds to magnitude \<open>2^1024\<close> or more is an infinity.
  Addition, subtraction and multiplication of floats never raise in Python; division
  raises on a zero divisor only.
\<close>

datatype pyfloat = Fin rat | PInf | NInf | NaN

datatype error = ZeroDivisionError | OverflowError | IndexError

text \<open>\<open>ilog2 x\<close> is the binary exponent of a positive rational: \<open>2^e \<le> x < 2^(e+1)\<close>.\<close>

definition ilog2 :: "rat \<Rightarrow> int" where
  "ilog2 x = (let (p, q) = quotient_of x; e = bitlen p - bitlen q
              in if 2 powi e \<le> x then e else e - 1)"

text \<open>The exponent used for rounding; below \<open>2^-1022\<close> the numbers are subnormal.\<close>

definition expo :: "rat \<Rightarrow> int" where
  "expo x = (if x = 0 then - 1022 else max (ilog2 \<bar>x\<bar>) (- 1022))"

text \<open>The spacing of binary64 numbers in the binade of \<open>x\<close> (53 bits of precision).\<close>

definition ulp :: "rat \<Rightarrow> rat" where
  "ulp x = 2 powi (expo x - 52)"

text \<open>Rounding a rational to the nearest integer, ties to even.\<close>

definition rne :: "rat \<Rightarrow> int" where
  "rne x = (let f = \<lfloor>x\<rfloor>; d = x - of_int f
            in if d < 1 / 2 then f
               else if 1 / 2 < d then f + 1
               else if even f then f else f + 1)"

definition rnd_val :: "rat \<Rightarrow> rat" where
  "rnd_val x = of_int (rne (x / ulp x)) * ulp x"

definition rnd :: "rat \<Rightarrow> pyfloat" where
  "rnd x = (let y = rnd_val x
            in if 2 ^ 1024 \<le> y then PInf
               else if y \<le> - (2 ^ 1024) then NInf
               else Fin y)"

fun fneg :: "pyfloat \<Rightarrow> pyfloat" where
  "fneg (Fin x) = Fin (- x)"
| "fneg PInf = NInf"
| "fneg NInf = PInf"
| "fneg NaN = NaN"

fun fadd :: "pyfloat \<Rightarrow> pyfloat \<Rightarrow> pyfloat" where
  "fadd NaN _ = NaN"
| "fadd _ NaN = NaN"
| "fadd PInf NInf = NaN"
| "fadd NInf PInf = NaN"
| "fadd PInf _ = PInf"
| "fadd _ PInf = PInf"
| "fadd NInf _ = NInf"
| "fadd _ NInf = NInf"
| "fadd (Fin x) (Fin y) = rnd (x + y)"

definition fsub :: "pyfloat \<Rightarrow> pyfloat \<Rightarrow> pyfloat" where
  "fsub a b = fadd a (fneg b)"

text \<open>The sign of a float as an integer; NaN has none and is handled before.\<close>

fun fsgn :: "pyfloat \<Rightarrow> int" where
  "fsgn (Fin x) = (if x < 0 then - 1 else if x = 0 then 0 else 1)"
| "fsgn PInf = 1"
| "fsgn NInf = - 1"
| "fsgn NaN = 0"

definition inf_of_sign :: "int \<Rightarrow> pyfloat" where
  "inf_of_sign s = (if s = 0 then NaN else if 0 < s then PInf else NInf)"

fun fmul :: "pyfloat \<Rightarrow> pyfloat \<Rightarrow> pyfloat" where
  "fmul NaN _ = NaN"
| "fmul _ NaN = NaN"
| "fmul (Fin x) (Fin y) = rnd (x * y)"
| "fmul a b = inf_of_sign (fsgn a * fsgn b)"

text \<open>
  Python's float division raises \<^verbatim>\<open>ZeroDivisionError\<close> on a zero divisor,
  before looking at the dividend.
\<close>

fun fdiv :: "pyfloat \<Rightarrow> pyfloat \<Rightarrow> error + pyfloat" where
  "fdiv a (Fin y) =
     (if y = 0 then Inl ZeroDivisionError
      else case a of
             Fin x \<Rightarrow> Inr (rnd (x / y))
           | NaN \<Rightarrow> Inr NaN
           | _ \<Rightarrow> Inr (inf_of_sign (fsgn a * fsgn (Fin y))))"
| "fdiv a NaN = Inr NaN"
| "fdiv (Fin x) _ = Inr (Fin 0)"
| "fdiv _ _ = Inr NaN"

text \<open>The comparison \<^verbatim>\<open>a > b\<close>: false whenever a NaN is involved.\<close>

fun fgt :: "pyfloat \<Rightarrow> pyfloat \<Rightarrow> bool" where
  "fgt NaN _ = False"
| "fgt _ NaN = False"
| "fgt (Fin x) (Fin y) = (y < x)"
| "fgt PInf PInf = False"
| "fgt PInf _ = True"
| "fgt NInf _ = False"
| "fgt (Fin x) NInf = True"
| "fgt (Fin x) PInf = False"

text \<open>
  An \<^verbatim>\<open>int\<close> operand of a float operation is converted first; the conversion rounds
  to nearest-even and raises \<^verbatim>\<open>OverflowError\<close> when the integer is too large.
\<close>

definition float_of_int :: "int \<Rightarrow> error + pyfloat" where
  "float_of_int k = (case rnd (of_int k) of Fin y \<Rightarrow> Inr (Fin y) | _ \<Rightarrow> Inl OverflowError)"

section \<open>Python complex numbers\<close>

text \<open>
  A \<^verbatim>\<open>complex\<close> is a pair of floats.  The product is computed by the interpreter as
  \<open>(a.real*b.real - a.imag*b.imag, a.real*b.imag + a.imag*b.real)\<close> and the sum
  componentwise, each operation rounded; a float operand of a complex operation is first
  converted to a complex with imaginary part \<^verbatim>\<open>0.0\<close>, as in \<^verbatim>\<open>xs[i] + 1j * ys[j]\<close>.
\<close>

datatype pycomplex = PyComplex (creal: pyfloat) (cimag: pyfloat)

definition c_prod :: "pycomplex \<Rightarrow> pycomplex \<Rightarrow> pycomplex" where
  "c_prod a b =
     PyComplex (fsub (fmul (creal a) (creal b)) (fmul (cimag a) (cimag b)))
               (fadd (fmul (creal a) (cimag b)) (fmul (cimag a) (creal b)))"

definition c_sum :: "pycomplex \<Rightarrow> pycomplex \<Rightarrow> pycomplex" where
  "c_sum a b = PyComplex (fadd (creal a) (creal b)) (fadd (cimag a) (cimag b))"

definition complex_of_float :: "pyfloat \<Rightarrow> pycomplex" where
  "complex_of_float x = PyComplex x (Fin 0)"

section \<open>The program\<close>

subsection \<open>\<^verbatim>\<open>mandelbrot_point\<close>\<close>

text \<open>
  The test of the loop body: \<^verbatim>\<open>(z.real * z.real + z.imag * z.imag) > 4.0\<close>.
\<close>

definition escaped :: "pycomplex \<Rightarrow> bool" where
  "escaped z = fgt (fadd (fmul (creal z) (creal z)) (fmul (cimag z) (cimag z))) (Fin 4)"

text \<open>
  The loop \<^verbatim>\<open>for n in range(max_iter)\<close>, started at index \<open>n\<close> with \<open>k\<close> iterations
  left and the current \<open>z\<close>.
\<close>

fun mandelbrot_loop :: "pycomplex \<Rightarrow> int \<Rightarrow> pycomplex \<Rightarrow> int \<Rightarrow> nat \<Rightarrow> int" where
  "mandelbrot_loop c max_iter z n 0 = max_iter"
| "mandelbrot_loop c max_iter z n (Suc k) =
     (let z' = c_sum (c_prod z z) c
      in if escaped z' then n else mandelbrot_loop c max_iter z' (n + 1) k)"

definition mandelbrot_point :: "pycomplex \<Rightarrow> int \<Rightarrow> int" where
  "mandelbrot_point c max_iter =
     mandelbrot_loop c max_iter (PyComplex (Fin 0) (Fin 0)) 0 (nat max_iter)"

subsection \<open>\<^verbatim>\<open>linspace\<close>\<close>

text \<open>
  \<^verbatim>\<open>float(start)\<close> is \<open>start\<close> itself, \<open>start\<close> being a float.  A list comprehension
  whose element expression may raise:
\<close>

fun map_err :: "('a \<Rightarrow> error + 'b) \<Rightarrow> 'a list \<Rightarrow> error + 'b list" where
  "map_err f [] = Inr []"
| "map_err f (x # xs) =
     (case f x of
        Inl e \<Rightarrow> Inl e
      | Inr y \<Rightarrow> (case map_err f xs of Inl e \<Rightarrow> Inl e | Inr ys \<Rightarrow> Inr (y # ys)))"

text \<open>The element \<^verbatim>\<open>start + i * step\<close> of the comprehension, \<open>i\<close> an \<^verbatim>\<open>int\<close>.\<close>

definition axis_point :: "pyfloat \<Rightarrow> pyfloat \<Rightarrow> int \<Rightarrow> error + pyfloat" where
  "axis_point start step i =
     (case float_of_int i of Inl e \<Rightarrow> Inl e | Inr fi \<Rightarrow> Inr (fadd start (fmul fi step)))"

text \<open>The step \<^verbatim>\<open>(stop - start) / (num - 1)\<close>.\<close>

definition axis_step :: "pyfloat \<Rightarrow> pyfloat \<Rightarrow> int \<Rightarrow> error + pyfloat" where
  "axis_step start stop num =
     (case float_of_int (num - 1) of Inl e \<Rightarrow> Inl e | Inr d \<Rightarrow> fdiv (fsub stop start) d)"

definition linspace :: "pyfloat \<Rightarrow> pyfloat \<Rightarrow> int \<Rightarrow> error + pyfloat list" where
  "linspace start stop num =
     (if num = 1 then Inr [start]
      else case axis_step start stop num of
             Inl e \<Rightarrow> Inl e
           | Inr step \<Rightarrow> map_err (axis_point start step) [0..num - 1])"

subsection \<open>\<^verbatim>\<open>mandelbrot_grid\<close>\<close>

text \<open>Indexing a list raises \<^verbatim>\<open>IndexError\<close> out of range; a negative index counts from the end.\<close>

definition py_index :: "'a list \<Rightarrow> int \<Rightarrow> error + 'a" where
  "py_index xs i =
     (if 0 \<le> i \<and> i < int (length xs) then Inr (xs ! nat i)
      else if - int (length xs) \<le> i \<and> i < 0 then Inr (xs ! nat (int (length xs) + i))
      else Inl IndexError)"

definition py_setitem :: "'a list \<Rightarrow> int \<Rightarrow> 'a \<Rightarrow> error + 'a list" where
  "py_setitem xs i v =
     (if 0 \<le> i \<and> i < int (length xs) then Inr (xs[nat i := v])
      else if - int (length xs) \<le> i \<and> i < 0 then Inr (xs[nat (int (length xs) + i) := v])
      else Inl IndexError)"

text \<open>The sample point \<^verbatim>\<open>c = xs[i] + 1j * ys[j]\<close> from the two coordinates.\<close>

definition sample_point :: "pyfloat \<Rightarrow> pyfloat \<Rightarrow> pycomplex" where
  "sample_point x y =
     c_sum (complex_of_float x) (c_prod (PyComplex (Fin 0) (Fin 1)) (complex_of_float y))"

text \<open>
  The body of the inner loop, \<^verbatim>\<open>iters[j][i] = mandelbrot_point(xs[i] + 1j * ys[j])\<close>.
  The rows of \<^verbatim>\<open>iters\<close> are distinct lists, so the assignment changes row \<open>j\<close> only.
\<close>

definition cell_step ::
  "pyfloat list \<Rightarrow> pyfloat list \<Rightarrow> int \<Rightarrow> int \<Rightarrow> int list list \<Rightarrow> int \<Rightarrow> error + int list list" where
  "cell_step xs ys max_iter j iters i =
     (case py_index xs i of Inl e \<Rightarrow> Inl e | Inr x \<Rightarrow>
      case py_index ys j of Inl e \<Rightarrow> Inl e | Inr y \<Rightarrow>
      case py_index iters j of Inl e \<Rightarrow> Inl e | Inr row \<Rightarrow>
      case py_setitem row i (mandelbrot_point (sample_point x y) max_iter) of
        Inl e \<Rightarrow> Inl e
      | Inr row' \<Rightarrow> py_setitem iters j row')"

text \<open>A \<^verbatim>\<open>for\<close> loop over a list of indices whose body may raise.\<close>

fun for_loop :: "('s \<Rightarrow> int \<Rightarrow> error + 's) \<Rightarrow> 's \<Rightarrow> int list \<Rightarrow> error + 's" where
  "for_loop body s [] = Inr s"
| "for_loop body s (i # is) =
     (case body s i of Inl e \<Rightarrow> Inl e | Inr s' \<Rightarrow> for_loop body s' is)"

definition mandelbrot_grid ::
  "pyfloat \<Rightarrow> pyfloat \<Rightarrow> pyfloat \<Rightarrow> pyfloat \<Rightarrow> int \<Rightarrow> int \<Rightarrow> int \<Rightarrow> error + int list list" where
  "mandelbrot_grid xmin xmax ymin ymax width height max_iter =
     (case linspace xmin xmax width of Inl e \<Rightarrow> Inl e | Inr xs \<Rightarrow>
      case linspace ymin ymax height of Inl e \<Rightarrow> Inl e | Inr ys \<Rightarrow>
      for_loop (\<lambda>iters j. for_loop (cell_step xs ys max_iter j) iters [0..width - 1])
        (replicate (nat height) (replicate (nat width) 0)) [0..height - 1])"

section \<open>Notions used to state the properties\<close>

text \<open>
  A rational is a binary64 number when rounding leaves it unchanged; a model value is a
  Python float when it is an infinity, NaN or such a rational.
\<close>

definition is_double :: "rat \<Rightarrow> bool" where
  "is_double x \<longleftrightarrow> rnd x = Fin x"

fun valid :: "pyfloat \<Rightarrow> bool" where
  "valid (Fin x) = is_double x"
| "valid _ = True"

text \<open>\<^verbatim>\<open>math.isfinite\<close>.\<close>

fun is_finite :: "pyfloat \<Rightarrow> bool" where
  "is_finite (Fin x) = True"
| "is_finite _ = False"

text \<open>The comparison \<^verbatim>\<open>a <= b\<close> of two floats: false whenever a NaN is involved.\<close>

fun fle :: "pyfloat \<Rightarrow> pyfloat \<Rightarrow> bool" where
  "fle NaN _ = False"
| "fle _ NaN = False"
| "fle (Fin x) (Fin y) = (x \<le> y)"
| "fle NInf _ = True"
| "fle _ PInf = True"
| "fle PInf _ = False"
| "fle (Fin x) NInf = False"

text \<open>
  The values of \<open>z\<close> in \<^verbatim>\<open>mandelbrot_point\<close>: \<open>orbit c k\<close> is \<open>z\<close> after \<open>k\<close>
  executions of \<^verbatim>\<open>z = z * z + c\<close>.
\<close>

fun orbit :: "pycomplex \<Rightarrow> nat \<Rightarrow> pycomplex" where
  "orbit c 0 = PyComplex (Fin 0) (Fin 0)"
| "orbit c (Suc k) = c_sum (c_prod (orbit c k) (orbit c k)) c"

text \<open>
  The iteration counts of the sample points of one row, and of the whole grid: row \<open>j\<close>
  belongs to \<open>ys ! j\<close> and column \<open>i\<close> to \<open>xs ! i\<close>.
\<close>

definition row_values :: "pyfloat list \<Rightarrow> pyfloat \<Rightarrow> int \<Rightarrow> int list" where
  "row_values xs y max_iter = map (\<lambda>x. mandelbrot_point (sample_point x y) max_iter) xs"

definition grid_values :: "pyfloat list \<Rightarrow> pyfloat list \<Rightarrow> int \<Rightarrow> int list list" where
  "grid_values xs ys max_iter = map (\<lambda>y. row_values xs y max_iter) ys"

section \<open>Powers of two and the binary exponent\<close>

lemma pow2_pos: "0 < (2::rat) powi e"
  by simp

lemma pow2_Suc: "(2::rat) powi (e + 1) = 2 * 2 powi e"
  by (simp add: power_int_add)

lemma pow2_less_iff: "(2::rat) powi a < 2 powi b \<longleftrightarrow> a < b"
proof
  assume "(2::rat) powi a < 2 powi b"
  show "a < b"
  proof (rule ccontr)
    assume "\<not> a < b"
    then have "b \<le> a" by simp
    then have "(2::rat) powi b \<le> 2 powi a" by (intro power_int_increasing) simp_all
    with \<open>(2::rat) powi a < 2 powi b\<close> show False by simp
  qed
next
  assume "a < b"
  then show "(2::rat) powi a < 2 powi b" by (intro power_int_strict_increasing) simp_all
qed

lemma pow2_le_iff: "(2::rat) powi a \<le> 2 powi b \<longleftrightarrow> a \<le> b"
  using pow2_less_iff [of b a] by (simp add: not_less [symmetric])

lemma ilog2_bounds:
  assumes "0 < x"
  shows "2 powi (ilog2 x) \<le> x" and "x < 2 powi (ilog2 x + 1)"
proof -
  obtain p q where pq: "quotient_of x = (p, q)" by (cases "quotient_of x")
  then have q: "0 < q" by (rule quotient_of_denom_pos)
  have x: "x = of_int p / of_int q" using pq by (rule quotient_of_div)
  have p: "0 < p" using assms q by (simp add: x zero_less_divide_iff)
  define e where "e = bitlen p - bitlen q"
  have bp: "1 \<le> bitlen p" and bq: "1 \<le> bitlen q"
    using p q bitlen_eq_zero_iff [of p] bitlen_eq_zero_iff [of q] bitlen_nonneg [of p] bitlen_nonneg [of q]
    by linarith+
  have "2 ^ nat (bitlen p - 1) \<le> p" "p < 2 ^ nat (bitlen p)"
    using bitlen_bounds [OF p] by simp_all
  then have "(of_int (2 ^ nat (bitlen p - 1)) :: rat) \<le> of_int p" "(of_int p :: rat) < of_int (2 ^ nat (bitlen p))"
    by (simp_all only: of_int_le_iff of_int_less_iff)
  then have P: "(2::rat) powi (bitlen p - 1) \<le> of_int p" "(of_int p :: rat) < 2 powi (bitlen p)"
    using bp by (simp_all add: power_int_def)
  have "2 ^ nat (bitlen q - 1) \<le> q" "q < 2 ^ nat (bitlen q)"
    using bitlen_bounds [OF q] by simp_all
  then have "(of_int (2 ^ nat (bitlen q - 1)) :: rat) \<le> of_int q" "(of_int q :: rat) < of_int (2 ^ nat (bitlen q))"
    by (simp_all only: of_int_le_iff of_int_less_iff)
  then have Q: "(2::rat) powi (bitlen q - 1) \<le> of_int q" "(of_int q :: rat) < 2 powi (bitlen q)"
    using bq by (simp_all add: power_int_def)
  have qpos: "(0::rat) < of_int q" using q by simp
  have lo: "2 powi (e - 1) < x"
  proof -
    have "2 powi (e - 1) * of_int q < (2::rat) powi (e - 1) * 2 powi (bitlen q)"
      using Q(2) by (intro mult_strict_left_mono) simp_all
    also have "\<dots> = 2 powi (bitlen p - 1)"
      by (simp add: e_def power_int_add [symmetric])
    also have "\<dots> \<le> of_int p" by (rule P(1))
    finally show ?thesis using qpos by (simp add: x pos_less_divide_eq)
  qed
  have hi: "x < 2 powi (e + 1)"
  proof -
    have "of_int p < (2::rat) powi (bitlen p)" by (rule P(2))
    also have "\<dots> = 2 powi (e + 1) * 2 powi (bitlen q - 1)"
      by (simp add: e_def power_int_add [symmetric])
    also have "\<dots> \<le> 2 powi (e + 1) * of_int q"
      using Q(1) by (intro mult_left_mono) simp_all
    finally show ?thesis using qpos by (simp add: x pos_divide_less_eq)
  qed
  have il: "ilog2 x = (if 2 powi e \<le> x then e else e - 1)"
    by (simp add: ilog2_def pq e_def Let_def)
  show "2 powi (ilog2 x) \<le> x" using lo by (simp add: il)
  show "x < 2 powi (ilog2 x + 1)" using hi by (simp add: il not_le)
qed

lemma ilog2_unique:
  assumes "2 powi e \<le> x" "x < 2 powi (e + 1)"
  shows "ilog2 x = e"
proof -
  have x: "0 < x" using assms(1) pow2_pos [of e] by linarith
  have "2 powi (ilog2 x) < (2::rat) powi (e + 1)"
    using ilog2_bounds(1) [OF x] assms(2) by linarith
  moreover have "2 powi e < (2::rat) powi (ilog2 x + 1)"
    using ilog2_bounds(2) [OF x] assms(1) by linarith
  ultimately show ?thesis by (simp add: pow2_less_iff)
qed

section \<open>Rounding to the nearest integer, ties to even\<close>

lemma rne_cases: "rne x = \<lfloor>x\<rfloor> \<or> rne x = \<lfloor>x\<rfloor> + 1"
  by (simp add: rne_def Let_def)

lemma rne_of_int [simp]: "rne (of_int k) = k"
  by (simp add: rne_def)

lemma rne_error: "\<bar>of_int (rne x) - x\<bar> \<le> 1 / 2"
proof -
  have "of_int \<lfloor>x\<rfloor> \<le> x" "x < of_int \<lfloor>x\<rfloor> + 1" by linarith+
  then show ?thesis by (auto simp: rne_def Let_def)
qed

lemma rne_mono:
  assumes "x \<le> y"
  shows "rne x \<le> rne y"
proof (cases "\<lfloor>x\<rfloor> = \<lfloor>y\<rfloor>")
  case True
  then show ?thesis using assms by (auto simp: rne_def Let_def)
next
  case False
  then have "\<lfloor>x\<rfloor> + 1 \<le> \<lfloor>y\<rfloor>" using floor_mono [OF assms] by linarith
  moreover have "rne x \<le> \<lfloor>x\<rfloor> + 1" using rne_cases [of x] by linarith
  moreover have "\<lfloor>y\<rfloor> \<le> rne y" using rne_cases [of y] by linarith
  ultimately show ?thesis by linarith
qed

lemma rne_le: "x \<le> of_int k \<Longrightarrow> rne x \<le> k"
  using rne_mono [of x "of_int k"] by simp

lemma rne_ge: "of_int k \<le> x \<Longrightarrow> k \<le> rne x"
  using rne_mono [of "of_int k" x] by simp

lemma rne_minus: "rne (- x) = - rne x"
proof (cases "x = of_int \<lfloor>x\<rfloor>")
  case True
  then have "rne x = \<lfloor>x\<rfloor>" "rne (- x) = - \<lfloor>x\<rfloor>"
    using rne_of_int [of "\<lfloor>x\<rfloor>"] rne_of_int [of "- \<lfloor>x\<rfloor>"] by (metis, metis of_int_minus)
  then show ?thesis by simp
next
  case False
  have fl: "of_int \<lfloor>x\<rfloor> \<le> x" "x < of_int \<lfloor>x\<rfloor> + 1" by linarith+
  have "of_int \<lfloor>x\<rfloor> < x" by (metis False fl(1) order_le_less)
  then have f: "\<lfloor>- x\<rfloor> = - \<lfloor>x\<rfloor> - 1"
    using fl(2) by (intro floor_unique) simp_all
  show ?thesis
    unfolding rne_def Let_def f using fl by (auto simp: field_simps)
qed

section \<open>Rounding to binary64: symmetry, error, monotonicity, exactness\<close>

lemma expo_ge: "- 1022 \<le> expo x"
  by (simp add: expo_def)

lemma expo_minus [simp]: "expo (- x) = expo x"
  by (simp add: expo_def)

lemma ulp_minus [simp]: "ulp (- x) = ulp x"
  by (simp add: ulp_def)

lemma ulp_pos: "0 < ulp x"
  by (simp add: ulp_def)

lemma expo_upper: "\<bar>x\<bar> < 2 powi (expo x + 1)"
proof (cases "x = 0")
  case True
  then show ?thesis by simp
next
  case False
  then have "\<bar>x\<bar> < 2 powi (ilog2 \<bar>x\<bar> + 1)" by (intro ilog2_bounds(2)) simp
  also have "\<dots> \<le> 2 powi (expo x + 1)"
    using False by (simp add: pow2_le_iff expo_def)
  finally show ?thesis .
qed

lemma expo_lower:
  assumes "- 1022 < expo x"
  shows "2 powi (expo x) \<le> \<bar>x\<bar>"
proof -
  have x: "x \<noteq> 0" using assms by (auto simp: expo_def)
  then have "expo x = ilog2 \<bar>x\<bar>" using assms by (simp add: expo_def max_def split: if_splits)
  then show ?thesis using ilog2_bounds(1) [of "\<bar>x\<bar>"] x by simp
qed

lemma expo_eq:
  assumes "2 powi e \<le> \<bar>x\<bar>" "\<bar>x\<bar> < 2 powi (e + 1)"
  shows "expo x = max e (- 1022)"
proof -
  have "0 < \<bar>x\<bar>" using assms(1) pow2_pos [of e] by linarith
  then have "x \<noteq> 0" by simp
  then show ?thesis using ilog2_unique [OF assms] by (simp add: expo_def)
qed

lemma expo_subnormal:
  assumes "\<bar>x\<bar> < 2 powi (- 1022)"
  shows "expo x = - 1022"
proof (rule ccontr)
  assume "expo x \<noteq> - 1022"
  then have e: "- 1022 < expo x" using expo_ge [of x] by simp
  then have "(2::rat) powi (expo x) < 2 powi (- 1022)"
    using expo_lower [OF e] assms by linarith
  then show False using e by (simp only: pow2_less_iff)
qed

lemma expo_mono:
  assumes "\<bar>x\<bar> \<le> \<bar>y\<bar>"
  shows "expo x \<le> expo y"
proof (cases "- 1022 < expo x")
  case True
  have "(2::rat) powi (expo x) < 2 powi (expo y + 1)"
    using expo_lower [OF True] assms expo_upper [of y] by linarith
  then show ?thesis by (simp only: pow2_less_iff)
next
  case False
  then show ?thesis using expo_ge [of x] expo_ge [of y] by simp
qed

lemma rnd_val_minus: "rnd_val (- x) = - rnd_val x"
  by (simp add: rnd_val_def rne_minus)

lemma rnd_val_0 [simp]: "rnd_val 0 = 0"
  using rne_of_int [of 0] by (simp add: rnd_val_def del: rne_of_int)

lemma rnd_val_error: "\<bar>rnd_val x - x\<bar> \<le> ulp x / 2"
proof -
  have u: "0 < ulp x" by (rule ulp_pos)
  have "rnd_val x - x = (of_int (rne (x / ulp x)) - x / ulp x) * ulp x"
    using u by (simp add: rnd_val_def field_simps)
  then have "\<bar>rnd_val x - x\<bar> = \<bar>of_int (rne (x / ulp x)) - x / ulp x\<bar> * ulp x"
    using u by (simp add: abs_mult)
  also have "\<dots> \<le> (1 / 2) * ulp x"
    using u rne_error [of "x / ulp x"] by (intro mult_right_mono) simp_all
  finally show ?thesis by simp
qed

lemma rnd_val_nonneg:
  assumes "0 \<le> x"
  shows "0 \<le> rnd_val x"
proof -
  have "of_int 0 \<le> x / ulp x" using assms ulp_pos [of x] by simp
  then have "0 \<le> rne (x / ulp x)" by (rule rne_ge)
  then show ?thesis using ulp_pos [of x] by (simp add: rnd_val_def)
qed

lemma ulp_scale: "2 powi (expo x + 1) = 2 ^ 53 * ulp x" "2 powi (expo x) = 2 ^ 52 * ulp x"
proof -
  have "expo x + 1 = 53 + (expo x - 52)" by simp
  then have "(2::rat) powi (expo x + 1) = 2 powi (53 + (expo x - 52))" by (rule arg_cong)
  also have "\<dots> = 2 powi 53 * 2 powi (expo x - 52)" by (rule power_int_add) simp
  finally show "2 powi (expo x + 1) = 2 ^ 53 * ulp x" by (simp add: ulp_def)
  have "expo x = 52 + (expo x - 52)" by simp
  then have "(2::rat) powi (expo x) = 2 powi (52 + (expo x - 52))" by (rule arg_cong)
  also have "\<dots> = 2 powi 52 * 2 powi (expo x - 52)" by (rule power_int_add) simp
  finally show "2 powi (expo x) = 2 ^ 52 * ulp x" by (simp add: ulp_def)
qed

lemma rnd_val_upper: "\<bar>rnd_val x\<bar> \<le> 2 powi (expo x + 1)"
proof -
  have pos: "rnd_val y \<le> 2 powi (expo y + 1)" if "0 \<le> y" for y
  proof -
    have u: "0 < ulp y" by (rule ulp_pos)
    have "y < 2 ^ 53 * ulp y" using expo_upper [of y] that by (simp add: ulp_scale)
    then have "y / ulp y \<le> of_int (2 ^ 53)" using u by (simp add: pos_divide_le_eq)
    then have "rne (y / ulp y) \<le> 2 ^ 53" by (rule rne_le)
    then have "(of_int (rne (y / ulp y)) :: rat) \<le> of_int (2 ^ 53)" by (simp only: of_int_le_iff)
    then have "of_int (rne (y / ulp y)) * ulp y \<le> 2 ^ 53 * ulp y"
      using u by (intro mult_right_mono) simp_all
    then show ?thesis by (simp add: rnd_val_def ulp_scale)
  qed
  show ?thesis
  proof (cases "0 \<le> x")
    case True
    then show ?thesis using pos [of x] rnd_val_nonneg [of x] by simp
  next
    case False
    then have "0 \<le> - x" by simp
    then show ?thesis using pos [of "- x"] rnd_val_nonneg [of "- x"] by (simp add: rnd_val_minus)
  qed
qed

lemma rnd_val_lower:
  assumes "0 \<le> x" "- 1022 < expo x"
  shows "2 powi (expo x) \<le> rnd_val x"
proof -
  have u: "0 < ulp x" by (rule ulp_pos)
  have "2 ^ 52 * ulp x \<le> x" using expo_lower [OF assms(2)] assms(1) by (simp add: ulp_scale)
  then have "of_int (2 ^ 52) \<le> x / ulp x" using u by (simp add: pos_le_divide_eq)
  then have "2 ^ 52 \<le> rne (x / ulp x)" by (rule rne_ge)
  then have "(of_int (2 ^ 52) :: rat) \<le> of_int (rne (x / ulp x))" by (simp only: of_int_le_iff)
  then have "2 ^ 52 * ulp x \<le> of_int (rne (x / ulp x)) * ulp x"
    using u by (intro mult_right_mono) simp_all
  then show ?thesis by (simp add: rnd_val_def ulp_scale)
qed

lemma rnd_val_mono_nonneg:
  assumes "0 \<le> x" "x \<le> y"
  shows "rnd_val x \<le> rnd_val y"
proof (cases "expo x = expo y")
  case True
  then have u: "ulp x = ulp y" by (simp add: ulp_def)
  have "x / ulp y \<le> y / ulp y" using assms(2) ulp_pos [of y] by (simp add: divide_right_mono)
  then have "rne (x / ulp y) \<le> rne (y / ulp y)" by (rule rne_mono)
  then have "(of_int (rne (x / ulp y)) :: rat) \<le> of_int (rne (y / ulp y))" by (simp only: of_int_le_iff)
  then show ?thesis unfolding rnd_val_def u
    using ulp_pos [of y] by (intro mult_right_mono) simp_all
next
  case False
  have "expo x \<le> expo y" using assms by (intro expo_mono) simp
  with False have lt: "expo x < expo y" by simp
  then have y: "- 1022 < expo y" using expo_ge [of x] by simp
  have "rnd_val x \<le> 2 powi (expo x + 1)" using rnd_val_upper [of x] by simp
  also have "\<dots> \<le> 2 powi (expo y)" using lt by (simp only: pow2_le_iff)
  also have "\<dots> \<le> rnd_val y" using assms y by (intro rnd_val_lower) simp_all
  finally show ?thesis .
qed

lemma rnd_val_mono:
  assumes "x \<le> y"
  shows "rnd_val x \<le> rnd_val y"
proof -
  consider "0 \<le> x" | "x < 0" "0 \<le> y" | "y < 0" using assms by linarith
  then show ?thesis
  proof cases
    case 1
    then show ?thesis using assms by (rule rnd_val_mono_nonneg)
  next
    case 2
    have "0 \<le> rnd_val (- x)" using 2 by (intro rnd_val_nonneg) simp
    then have "rnd_val x \<le> 0" by (simp add: rnd_val_minus)
    also have "0 \<le> rnd_val y" using 2 by (intro rnd_val_nonneg)
    finally show ?thesis .
  next
    case 3
    have "rnd_val (- y) \<le> rnd_val (- x)" using 3 assms by (intro rnd_val_mono_nonneg) simp_all
    then show ?thesis by (simp add: rnd_val_minus)
  qed
qed

lemma rnd_val_exact:
  assumes x: "x = of_int m * 2 powi k" and m: "\<bar>m\<bar> < 2 ^ 53" and k: "- 1074 \<le> k"
  shows "rnd_val x = x"
proof -
  have ek: "expo x - 52 \<le> k"
  proof (cases "- 1022 < expo x")
    case True
    have "(of_int \<bar>m\<bar> :: rat) < of_int (2 ^ 53)" using m by (simp only: of_int_less_iff)
    then have "(of_int \<bar>m\<bar> :: rat) * 2 powi k < 2 ^ 53 * 2 powi k"
      by (intro mult_strict_right_mono) simp_all
    moreover have "\<bar>x\<bar> = of_int \<bar>m\<bar> * 2 powi k" by (simp add: x abs_mult)
    moreover have "(2::rat) ^ 53 * 2 powi k = 2 powi (53 + k)"
      using power_int_add [of "2::rat" 53 k] by simp
    ultimately have "(2::rat) powi (expo x) < 2 powi (53 + k)"
      using expo_lower [OF True] by linarith
    then have "expo x < 53 + k" by (simp only: pow2_less_iff)
    then show ?thesis by simp
  next
    case False
    then have "expo x = - 1022" using expo_ge [of x] by simp
    then show ?thesis using k by simp
  qed
  define j where "j = nat (k - (expo x - 52))"
  have kj: "k = int j + (expo x - 52)" using ek by (simp add: j_def)
  have "(2::rat) powi k = 2 powi (int j) * 2 powi (expo x - 52)"
    unfolding kj by (rule power_int_add) simp
  then have "x = of_int (m * 2 ^ j) * ulp x" by (simp add: x ulp_def)
  then have "x / ulp x = of_int (m * 2 ^ j)" using ulp_pos [of x] by (simp add: field_simps)
  then have "rne (x / ulp x) = m * 2 ^ j" by (simp only: rne_of_int)
  then show ?thesis using \<open>x = of_int (m * 2 ^ j) * ulp x\<close> by (simp add: rnd_val_def)
qed

section \<open>The rounded result as a float\<close>

lemma rnd_cases:
  obtains "rnd x = PInf" "2 ^ 1024 \<le> rnd_val x"
  | "rnd x = NInf" "rnd_val x \<le> - (2 ^ 1024)"
  | "rnd x = Fin (rnd_val x)" "\<bar>rnd_val x\<bar> < 2 ^ 1024"
  by (cases "2 ^ 1024 \<le> rnd_val x"; cases "rnd_val x \<le> - (2 ^ 1024)")
     (auto simp: rnd_def Let_def)

lemma rnd_not_NaN [simp]: "rnd x \<noteq> NaN"
  by (simp add: rnd_def Let_def)

lemma rnd_Fin: "\<bar>rnd_val x\<bar> < 2 ^ 1024 \<Longrightarrow> rnd x = Fin (rnd_val x)"
  by (auto simp: rnd_def Let_def)

lemma rnd_Fin_D: "rnd x = Fin y \<Longrightarrow> y = rnd_val x \<and> \<bar>y\<bar> < 2 ^ 1024"
  by (auto simp: rnd_def Let_def split: if_splits)

lemma rnd_0 [simp]: "rnd 0 = Fin 0"
  by (simp add: rnd_Fin)

lemma rnd_minus: "rnd (- x) = fneg (rnd x)"
  by (auto simp: rnd_def Let_def rnd_val_minus)

lemma rnd_mono: "x \<le> y \<Longrightarrow> fle (rnd x) (rnd y)"
  using rnd_val_mono [of x y] by (auto simp: rnd_def Let_def)

lemma rnd_exact:
  assumes "x = of_int m * 2 powi k" "\<bar>m\<bar> < 2 ^ 53" "- 1074 \<le> k" "\<bar>x\<bar> < 2 ^ 1024"
  shows "rnd x = Fin x"
  using rnd_val_exact [OF assms(1-3)] assms(4) by (simp add: rnd_Fin)

lemma is_doubleI:
  "x = of_int m * 2 powi k \<Longrightarrow> \<bar>m\<bar> < 2 ^ 53 \<Longrightarrow> - 1074 \<le> k \<Longrightarrow> \<bar>x\<bar> < 2 ^ 1024 \<Longrightarrow> is_double x"
  unfolding is_double_def by (rule rnd_exact)

lemma is_double_0 [simp]: "is_double 0"
  by (simp add: is_double_def)

lemma is_double_minus [simp]: "is_double (- x) \<longleftrightarrow> is_double x"
  by (cases "rnd x") (auto simp: is_double_def rnd_minus)

lemma is_double_D: "is_double x \<Longrightarrow> rnd_val x = x \<and> \<bar>x\<bar> < 2 ^ 1024"
  unfolding is_double_def using rnd_Fin_D [of x x] by simp

lemma rnd_val_idem: "rnd_val (rnd_val x) = rnd_val x"
proof -
  define m where "m = rne (x / ulp x)"
  have v: "rnd_val x = of_int m * 2 powi (expo x - 52)"
    by (simp add: rnd_val_def m_def ulp_def)
  have "\<bar>of_int m * ulp x\<bar> \<le> 2 ^ 53 * ulp x"
    using rnd_val_upper [of x] by (simp add: rnd_val_def m_def ulp_scale)
  then have "\<bar>of_int m :: rat\<bar> * ulp x \<le> 2 ^ 53 * ulp x"
    using ulp_pos [of x] by (simp add: abs_mult)
  then have "\<bar>of_int m :: rat\<bar> \<le> 2 ^ 53"
    using ulp_pos [of x] by (simp only: mult_le_cancel_right_pos)
  then have "(of_int \<bar>m\<bar> :: rat) \<le> of_int (2 ^ 53)" by simp
  then have m: "\<bar>m\<bar> \<le> 2 ^ 53" by (simp only: of_int_le_iff)
  consider "\<bar>m\<bar> < 2 ^ 53" | "m = 2 ^ 53" | "m = - (2 ^ 53)" using m by linarith
  then show ?thesis
  proof cases
    case 1
    show ?thesis
      using v 1 expo_ge [of x] by (intro rnd_val_exact [of _ m "expo x - 52"]) simp_all
  next
    case 2
    have "rnd_val x = 2 ^ 53 * ulp x" by (simp add: v 2 ulp_def)
    then have "rnd_val x = of_int 1 * 2 powi (expo x + 1)" by (simp add: ulp_scale)
    then show ?thesis
      using expo_ge [of x] by (intro rnd_val_exact [of _ 1 "expo x + 1"]) simp_all
  next
    case 3
    have "rnd_val x = - (2 ^ 53 * ulp x)" by (simp add: v 3 ulp_def)
    then have "rnd_val x = of_int (- 1) * 2 powi (expo x + 1)" by (simp add: ulp_scale)
    then show ?thesis
      using expo_ge [of x] by (intro rnd_val_exact [of _ "- 1" "expo x + 1"]) simp_all
  qed
qed

lemma rnd_is_double:
  assumes "rnd x = Fin y"
  shows "is_double y"
proof -
  have y: "y = rnd_val x" "\<bar>y\<bar> < 2 ^ 1024" using rnd_Fin_D [OF assms] by blast+
  have "rnd_val y = y" unfolding y(1) by (rule rnd_val_idem)
  then have "rnd y = Fin y" using rnd_Fin [of y] y(2) by simp
  then show ?thesis by (simp add: is_double_def)
qed

lemma rnd_valid [simp]: "valid (rnd x)"
  by (cases "rnd x") (simp_all add: rnd_is_double)

lemma small_int_bound:
  assumes "\<bar>k\<bar> \<le> 2 ^ 53"
  shows "\<bar>of_int k :: rat\<bar> < 2 ^ 1024"
proof -
  have "\<bar>of_int k :: rat\<bar> = of_int \<bar>k\<bar>" by simp
  also have "\<dots> \<le> of_int (2 ^ 53)" using assms by (simp only: of_int_le_iff)
  also have "\<dots> < 2 ^ 1024" by simp
  finally show ?thesis .
qed

lemma is_double_int:
  assumes "\<bar>k\<bar> \<le> 2 ^ 53"
  shows "is_double (of_int k)"
proof -
  note b = small_int_bound [OF assms]
  consider "\<bar>k\<bar> < 2 ^ 53" | "k = 2 ^ 53" | "k = - (2 ^ 53)" using assms by linarith
  then show ?thesis
  proof cases
    case 1
    then show ?thesis using b by (intro is_doubleI [of _ k 0]) simp_all
  next
    case 2
    then show ?thesis using b by (intro is_doubleI [of _ 1 53]) simp_all
  next
    case 3
    then show ?thesis using b by (intro is_doubleI [of _ "- 1" 53]) simp_all
  qed
qed

text \<open>A dyadic fraction with a small numerator.\<close>

lemma is_double_dyadic:
  assumes "\<bar>m\<bar> < 2 ^ 53" "j \<le> 1074"
  shows "is_double (of_int m / 2 ^ j)"
proof -
  have "(of_int m / 2 ^ j :: rat) = of_int m * 2 powi (- int j)"
    by (simp add: power_int_minus field_simps)
  moreover have "\<bar>of_int m / 2 ^ j :: rat\<bar> < 2 ^ 1024"
  proof -
    have "\<bar>of_int m / 2 ^ j :: rat\<bar> = of_int \<bar>m\<bar> / 2 ^ j" by simp
    also have "\<dots> \<le> of_int \<bar>m\<bar>" by (simp add: field_simps mult_le_cancel_left1)
    also have "\<dots> < of_int (2 ^ 53)" using assms(1) by (simp only: of_int_less_iff)
    also have "\<dots> < 2 ^ 1024" by simp
    finally show ?thesis .
  qed
  ultimately show ?thesis using assms by (intro is_doubleI [of _ m "- int j"]) simp_all
qed

lemma rnd_between:
  assumes "lo \<le> x" "x \<le> hi" "is_double lo" "is_double hi"
  shows "\<exists>y. rnd x = Fin y \<and> lo \<le> y \<and> y \<le> hi \<and> is_double y"
proof -
  have lo: "rnd_val lo = lo" "\<bar>lo\<bar> < 2 ^ 1024" and hi: "rnd_val hi = hi" "\<bar>hi\<bar> < 2 ^ 1024"
    using is_double_D assms(3,4) by simp_all
  have b: "lo \<le> rnd_val x" "rnd_val x \<le> hi"
    using rnd_val_mono [OF assms(1)] rnd_val_mono [OF assms(2)] lo hi by simp_all
  then have f: "\<bar>rnd_val x\<bar> < 2 ^ 1024" using lo(2) hi(2) by linarith
  have "rnd x = Fin (rnd_val x)" using f by (rule rnd_Fin)
  then show ?thesis using b rnd_is_double [of x "rnd_val x"] by simp
qed

lemma rnd_of_int: "\<bar>k\<bar> \<le> 2 ^ 53 \<Longrightarrow> rnd (of_int k) = Fin (of_int k)"
  using is_double_int [of k] by (simp add: is_double_def)

lemma rnd_dyadic: "\<bar>m\<bar> < 2 ^ 53 \<Longrightarrow> j \<le> 1074 \<Longrightarrow> rnd (of_int m / 2 ^ j) = Fin (of_int m / 2 ^ j)"
  using is_double_dyadic [of m j] by (simp add: is_double_def)

lemma rnd_small_numerals:
  "rnd 1 = Fin 1" "rnd 2 = Fin 2" "rnd 3 = Fin 3" "rnd 4 = Fin 4" "rnd 5 = Fin 5" "rnd 8 = Fin 8"
  "rnd 25 = Fin 25"
  using rnd_of_int [of 1] rnd_of_int [of 2] rnd_of_int [of 3] rnd_of_int [of 4]
    rnd_of_int [of 5] rnd_of_int [of 8] rnd_of_int [of 25]
  by simp_all

section \<open>The iteration count\<close>

lemma mandelbrot_loop_range:
  "0 \<le> n \<Longrightarrow> n + int k = max_iter \<Longrightarrow>
   n \<le> mandelbrot_loop c max_iter z n k \<and> mandelbrot_loop c max_iter z n k \<le> max_iter"
proof (induction k arbitrary: z n)
  case 0
  then show ?case by simp
next
  case (Suc k)
  let ?z = "c_sum (c_prod z z) c"
  have "n + 1 \<le> mandelbrot_loop c max_iter ?z (n + 1) k
        \<and> mandelbrot_loop c max_iter ?z (n + 1) k \<le> max_iter"
    using Suc.prems by (intro Suc.IH) simp_all
  then show ?case
    using Suc.prems by (simp add: Let_def)
qed

lemma loop_orbit:
  "0 \<le> n \<Longrightarrow> n + int k = max_iter \<Longrightarrow>
   (mandelbrot_loop c max_iter (orbit c j) n k = max_iter)
     = (\<forall>i<k. \<not> escaped (orbit c (Suc (j + i))))"
proof (induction k arbitrary: n j)
  case 0
  then show ?case by simp
next
  case (Suc k)
  show ?case
  proof (cases "escaped (orbit c (Suc j))")
    case True
    then have "mandelbrot_loop c max_iter (orbit c j) n (Suc k) = n" by simp
    moreover have "n < max_iter" using Suc.prems by simp
    moreover have "\<not> (\<forall>i<Suc k. \<not> escaped (orbit c (Suc (j + i))))"
      using True by (auto intro: exI [of _ 0])
    ultimately show ?thesis by simp
  next
    case False
    have "(mandelbrot_loop c max_iter (orbit c (Suc j)) (n + 1) k = max_iter)
            = (\<forall>i<k. \<not> escaped (orbit c (Suc (Suc j + i))))"
      using Suc.prems by (intro Suc.IH) simp_all
    moreover have "(\<forall>i<Suc k. \<not> escaped (orbit c (Suc (j + i))))
            = (\<forall>i<k. \<not> escaped (orbit c (Suc (Suc j + i))))"
      using False by (auto simp: less_Suc_eq_0_disj)
    ultimately show ?thesis using False by simp
  qed
qed

lemma mandelbrot_point_range:
  "0 \<le> max_iter \<Longrightarrow> 0 \<le> mandelbrot_point c max_iter \<and> mandelbrot_point c max_iter \<le> max_iter"
  unfolding mandelbrot_point_def by (rule mandelbrot_loop_range) simp_all

lemma mandelbrot_point_budget:
  "0 \<le> max_iter \<Longrightarrow>
   (mandelbrot_point c max_iter = max_iter) = (\<forall>k<nat max_iter. \<not> escaped (orbit c (Suc k)))"
  unfolding mandelbrot_point_def using loop_orbit [of 0 "nat max_iter" max_iter c 0] by simp

lemma origin_step:
  "c_sum (c_prod (PyComplex (Fin 0) (Fin 0)) (PyComplex (Fin 0) (Fin 0))) (PyComplex (Fin 0) (Fin 0))
     = PyComplex (Fin 0) (Fin 0)"
  by (simp add: c_sum_def c_prod_def fsub_def)

lemma origin_not_escaped: "\<not> escaped (PyComplex (Fin 0) (Fin 0))"
  by (simp add: escaped_def)

lemma origin_loop:
  "mandelbrot_loop (PyComplex (Fin 0) (Fin 0)) max_iter (PyComplex (Fin 0) (Fin 0)) n k = max_iter"
  by (induction k arbitrary: n) (simp_all add: origin_step origin_not_escaped)

text \<open>
  Claim C4.  For every \<open>max_iter \<ge> 0\<close>, \<^verbatim>\<open>mandelbrot_point\<close> applied to the origin
  \<open>0+0i\<close> returns exactly \<open>max_iter\<close>: with \<open>c = 0\<close> the value \<open>z\<close> stays \<open>0\<close> under
  \<^verbatim>\<open>z = z * z + c\<close> and the test \<open>0 > 4\<close> never holds.
\<close>

theorem origin_never_escapes:
  "0 \<le> max_iter \<Longrightarrow> mandelbrot_point (PyComplex (Fin 0) (Fin 0)) max_iter = max_iter"
  by (simp add: mandelbrot_point_def origin_loop)

theorem origin_never_escapes_witness:
  "(0::int) \<le> 80 \<and> mandelbrot_point (PyComplex (Fin 0) (Fin 0)) 80 = 80"
  using origin_never_escapes [of 80] by simp

lemma first_step: "c_sum (c_prod (PyComplex (Fin 0) (Fin 0)) (PyComplex (Fin 0) (Fin 0))) c
   = PyComplex (fadd (Fin 0) (creal c)) (fadd (Fin 0) (cimag c))"
  by (simp add: c_sum_def c_prod_def fsub_def)

lemma loop_escapes_now:
  "escaped (c_sum (c_prod z z) c) \<Longrightarrow> 0 < k \<Longrightarrow> mandelbrot_loop c max_iter z n k = n"
  by (cases k) simp_all

lemma loop_continues:
  "\<not> escaped (c_sum (c_prod z z) c) \<Longrightarrow> 0 < k \<Longrightarrow>
   mandelbrot_loop c max_iter z n k = mandelbrot_loop c max_iter (c_sum (c_prod z z) c) (n + 1) (k - 1)"
  by (cases k) simp_all

text \<open>
  Claim C7.  \<^verbatim>\<open>mandelbrot_point(2+2j, 80)\<close> returns exactly \<open>0\<close>: after the first
  execution of the loop body \<open>z = c\<close>, and \<open>2*2 + 2*2 = 8 > 4\<close>, so the loop returns its
  index \<open>0\<close>.
\<close>

theorem two_plus_two_i_escapes_at_0:
  "mandelbrot_point (PyComplex (Fin 2) (Fin 2)) 80 = 0"
proof -
  have "escaped (c_sum (c_prod (PyComplex (Fin 0) (Fin 0)) (PyComplex (Fin 0) (Fin 0)))
          (PyComplex (Fin 2) (Fin 2)))"
    by (simp add: first_step escaped_def rnd_small_numerals)
  then show ?thesis
    unfolding mandelbrot_point_def by (rule loop_escapes_now) simp
qed

text \<open>
  Claim C9.  For every complex \<open>c\<close>, \<^verbatim>\<open>mandelbrot_point(c, 0)\<close> returns \<open>0\<close>: with a
  zero budget the loop body never runs and the function returns \<open>max_iter = 0\<close>, the same
  value an immediate escape gives.
\<close>

theorem zero_budget: "mandelbrot_point c 0 = 0"
  by (simp add: mandelbrot_point_def)

section \<open>The loops of the grid\<close>

lemma for_loop_append:
  "for_loop body s (xs @ ys) =
     (case for_loop body s xs of Inl e \<Rightarrow> Inl e | Inr s' \<Rightarrow> for_loop body s' ys)"
  by (induction xs arbitrary: s) (simp_all split: sum.splits)

lemma for_loop_steps:
  assumes "\<And>n. n < N \<Longrightarrow> body (S n) (int n) = Inr (S (Suc n))"
  shows "n \<le> N \<Longrightarrow> for_loop body (S 0) (map int [0..<n]) = Inr (S n)"
proof (induction n)
  case 0
  then show ?case by simp
next
  case (Suc n)
  then have "for_loop body (S 0) (map int [0..<n]) = Inr (S n)" by simp
  moreover have "body (S n) (int n) = Inr (S (Suc n))" using Suc.prems by (intro assms) simp
  ultimately show ?case by (simp add: for_loop_append)
qed

lemma range_as_upt: "[0..n - 1] = map int [0..<nat n]"
  by (rule nth_equalityI) simp_all

lemma py_index_ok: "i < length xs \<Longrightarrow> py_index xs (int i) = Inr (xs ! i)"
  by (simp add: py_index_def)

lemma py_setitem_ok: "i < length xs \<Longrightarrow> py_setitem xs (int i) v = Inr (xs[i := v])"
  by (simp add: py_setitem_def)

lemma cell_step_ok:
  assumes "i < length xs" "j < length ys" "j < length iters" "i < length (iters ! j)"
  shows "cell_step xs ys max_iter (int j) iters (int i) =
           Inr (iters[j := (iters ! j)[i := mandelbrot_point (sample_point (xs ! i) (ys ! j)) max_iter]])"
  using assms by (simp add: cell_step_def py_index_ok py_setitem_ok)

lemma fill_step:
  assumes "n < length row"
  shows "(map f [0..<n] @ drop n row)[n := f n] = map f [0..<Suc n] @ drop (Suc n) row"
proof -
  have "(drop n row)[0 := f n] = f n # drop (Suc n) row"
    using assms by (simp add: Cons_nth_drop_Suc [symmetric])
  then show ?thesis by (simp add: list_update_append)
qed

lemma inner_loop:
  assumes "j < length ys" "j < length iters" "length (iters ! j) = length xs"
  shows "for_loop (cell_step xs ys max_iter (int j)) iters [0..int (length xs) - 1]
           = Inr (iters[j := row_values xs (ys ! j) max_iter])"
proof -
  define f where "f i = mandelbrot_point (sample_point (xs ! i) (ys ! j)) max_iter" for i
  define S where "S n = iters[j := map f [0..<n] @ drop n (iters ! j)]" for n
  have step: "cell_step xs ys max_iter (int j) (S n) (int n) = Inr (S (Suc n))"
    if "n < length xs" for n
  proof -
    have "cell_step xs ys max_iter (int j) (S n) (int n) =
            Inr ((S n)[j := (S n ! j)[n := f n]])"
      unfolding f_def using that assms by (intro cell_step_ok) (simp_all add: S_def)
    also have "(S n)[j := (S n ! j)[n := f n]] = S (Suc n)"
      using that assms by (simp add: S_def fill_step del: upt_Suc)
    finally show ?thesis .
  qed
  have "for_loop (cell_step xs ys max_iter (int j)) (S 0) (map int [0..<length xs]) = Inr (S (length xs))"
    by (rule for_loop_steps [where N = "length xs"]) (simp_all add: step)
  moreover have "S 0 = iters" by (simp add: S_def)
  moreover have "map f [0..<length xs] = row_values xs (ys ! j) max_iter"
    by (rule nth_equalityI) (simp_all add: row_values_def f_def)
  then have "S (length xs) = iters[j := row_values xs (ys ! j) max_iter]"
    using assms by (simp add: S_def)
  ultimately show ?thesis by (simp add: range_as_upt)
qed

lemma outer_loop:
  "for_loop (\<lambda>iters j. for_loop (cell_step xs ys max_iter j) iters [0..int (length xs) - 1])
       (replicate (length ys) (replicate (length xs) 0)) [0..int (length ys) - 1]
     = Inr (grid_values xs ys max_iter)"
proof -
  define G where "G = replicate (length ys) (replicate (length xs) (0::int))"
  define F where "F j = row_values xs (ys ! j) max_iter" for j
  define S where "S n = map F [0..<n] @ drop n G" for n
  have step: "for_loop (cell_step xs ys max_iter (int n)) (S n) [0..int (length xs) - 1] = Inr (S (Suc n))"
    if "n < length ys" for n
  proof -
    have "S n ! n = replicate (length xs) 0"
      using that by (simp add: S_def G_def nth_append)
    then have "for_loop (cell_step xs ys max_iter (int n)) (S n) [0..int (length xs) - 1]
                 = Inr ((S n)[n := F n])"
      unfolding F_def using that by (intro inner_loop) (simp_all add: S_def G_def)
    also have "(S n)[n := F n] = S (Suc n)"
      unfolding S_def using that by (intro fill_step) (simp add: G_def)
    finally show ?thesis .
  qed
  have "for_loop (\<lambda>iters j. for_loop (cell_step xs ys max_iter j) iters [0..int (length xs) - 1])
          (S 0) (map int [0..<length ys]) = Inr (S (length ys))"
    by (rule for_loop_steps [where N = "length ys"]) (simp_all add: step)
  moreover have "S 0 = G" by (simp add: S_def)
  moreover have "map F [0..<length ys] = grid_values xs ys max_iter"
    by (rule nth_equalityI) (simp_all add: grid_values_def F_def)
  then have "S (length ys) = grid_values xs ys max_iter"
    by (simp add: S_def G_def)
  ultimately show ?thesis by (simp add: range_as_upt G_def)
qed

section \<open>The sampler and the grid as a whole\<close>

lemma map_err_Inr:
  "(\<And>x. x \<in> set xs \<Longrightarrow> f x = Inr (g x)) \<Longrightarrow> map_err f xs = Inr (map g xs)"
  by (induction xs) simp_all

lemma map_err_length: "map_err f xs = Inr ys \<Longrightarrow> length ys = length xs"
  by (induction xs arbitrary: ys) (auto split: sum.splits)

lemma map_err_nth: "map_err f xs = Inr ys \<Longrightarrow> i < length xs \<Longrightarrow> f (xs ! i) = Inr (ys ! i)"
proof (induction xs arbitrary: ys i)
  case Nil
  then show ?case by simp
next
  case (Cons x xs)
  then show ?case by (cases i) (auto split: sum.splits)
qed

lemma is_double_1: "is_double 1"
  using is_double_int [of 1] by simp

lemma is_double_pow1023: "is_double (2 ^ 1023)"
  by (rule is_doubleI [of _ 1 1023]) simp_all

lemma float_of_int_pos:
  assumes "1 \<le> k" "k \<le> 2 ^ 1023"
  shows "\<exists>y. float_of_int k = Inr (Fin y) \<and> rnd (of_int k) = Fin y \<and> 1 \<le> y \<and> y \<le> 2 ^ 1023 \<and> is_double y"
proof -
  have "(of_int 1 :: rat) \<le> of_int k" "(of_int k :: rat) \<le> of_int (2 ^ 1023)"
    using assms by (simp_all only: of_int_le_iff)
  then have "(1 :: rat) \<le> of_int k" "(of_int k :: rat) \<le> 2 ^ 1023" by simp_all
  then obtain y where "rnd (of_int k) = Fin y" "1 \<le> y" "y \<le> 2 ^ 1023" "is_double y"
    using rnd_between [OF _ _ is_double_1 is_double_pow1023] by blast
  then show ?thesis by (auto simp: float_of_int_def)
qed

lemma float_of_int_0: "float_of_int 0 = Inr (Fin 0)"
  by (simp add: float_of_int_def)

lemma float_of_int_neg:
  assumes "k \<le> - 1" "- (2 ^ 1023) \<le> k"
  shows "\<exists>y. float_of_int k = Inr (Fin y) \<and> rnd (of_int k) = Fin y \<and> y \<le> - 1 \<and> is_double y"
proof -
  obtain y where y: "rnd (- of_int k) = Fin y" "1 \<le> y" "is_double y"
    using float_of_int_pos [of "- k"] assms by auto
  have "rnd (of_int k) = fneg (rnd (- of_int k))"
    using rnd_minus [of "- of_int k"] by simp
  then have "rnd (of_int k) = Fin (- y)" by (simp add: y)
  then show ?thesis using y by (auto simp: float_of_int_def)
qed

lemma float_of_int_ok:
  assumes "- (2 ^ 1023) \<le> k" "k \<le> 2 ^ 1023"
  shows "\<exists>y. float_of_int k = Inr (Fin y) \<and> rnd (of_int k) = Fin y \<and> is_double y \<and> (y = 0 \<longleftrightarrow> k = 0)
            \<and> (0 \<le> k \<longrightarrow> 0 \<le> y) \<and> (1 \<le> k \<longrightarrow> 1 \<le> y)"
proof -
  consider "1 \<le> k" | "k = 0" | "k \<le> - 1" by linarith
  then show ?thesis
  proof cases
    case 1
    then show ?thesis using float_of_int_pos [of k] assms by auto
  next
    case 2
    then show ?thesis by (simp add: float_of_int_0)
  next
    case 3
    then show ?thesis using float_of_int_neg [of k] assms by auto
  qed
qed

lemma fdiv_ok: "y \<noteq> 0 \<Longrightarrow> \<exists>r. fdiv a (Fin y) = Inr r"
  by (cases a) simp_all

lemma linspace_one [simp]: "linspace start stop 1 = Inr [start]"
  by (simp add: linspace_def)

lemma linspace_general:
  assumes "num \<noteq> 1" "- (2 ^ 1023) < num" "num \<le> 2 ^ 1023"
  shows "\<exists>step. axis_step start stop num = Inr step \<and>
           linspace start stop num =
             Inr (map (\<lambda>i. fadd start (fmul (rnd (of_int i)) step)) [0..num - 1])"
proof -
  obtain d where d: "float_of_int (num - 1) = Inr (Fin d)" "d \<noteq> 0"
    using float_of_int_ok [of "num - 1"] assms by auto
  obtain step where step: "fdiv (fsub stop start) (Fin d) = Inr step"
    using fdiv_ok [OF d(2)] by blast
  have s: "axis_step start stop num = Inr step" by (simp add: axis_step_def d(1) step del: fdiv.simps)
  have "axis_point start step i = Inr (fadd start (fmul (rnd (of_int i)) step))"
    if "i \<in> set [0..num - 1]" for i
  proof -
    have "- (2 ^ 1023) \<le> i" "i \<le> 2 ^ 1023" using that assms by simp_all
    then obtain y where "float_of_int i = Inr (Fin y)" "rnd (of_int i) = Fin y"
      using float_of_int_ok [of i] by blast
    then show ?thesis by (simp add: axis_point_def)
  qed
  then have "map_err (axis_point start step) [0..num - 1]
             = Inr (map (\<lambda>i. fadd start (fmul (rnd (of_int i)) step)) [0..num - 1])"
    by (rule map_err_Inr)
  then show ?thesis using s assms(1) by (simp add: linspace_def)
qed

lemma linspace_total:
  assumes "- (2 ^ 1023) < num" "num \<le> 2 ^ 1023"
  shows "\<exists>xs. linspace start stop num = Inr xs"
  using linspace_general [OF _ assms] linspace_one by (cases "num = 1") blast+

lemma linspace_length: "linspace start stop num = Inr xs \<Longrightarrow> length xs = nat num"
  by (auto simp: linspace_def dest: map_err_length split: if_splits sum.splits)

lemma linspace_nonpositive:
  assumes "- (2 ^ 1023) < num" "num < 1"
  shows "linspace start stop num = Inr []"
proof -
  obtain xs where xs: "linspace start stop num = Inr xs"
    using linspace_total [of num] assms by auto
  then have "length xs = 0" using linspace_length [OF xs] assms by simp
  then show ?thesis using xs by simp
qed

lemma mandelbrot_grid_eq:
  assumes "linspace xmin xmax width = Inr xs" "linspace ymin ymax height = Inr ys"
  shows "mandelbrot_grid xmin xmax ymin ymax width height max_iter = Inr (grid_values xs ys max_iter)"
proof -
  have lx: "length xs = nat width" and ly: "length ys = nat height"
    using assms by (simp_all add: linspace_length)
  have "[0..width - 1] = [0..int (length xs) - 1]" "[0..height - 1] = [0..int (length ys) - 1]"
    by (simp_all add: range_as_upt lx ly)
  then show ?thesis
    using outer_loop [of xs ys max_iter] by (simp add: mandelbrot_grid_def assms lx [symmetric] ly [symmetric])
qed

lemma fadd_valid [simp]: "valid (fadd a b)"
  by (cases a; cases b) simp_all

lemma linspace_valid:
  assumes "linspace start stop num = Inr xs" "valid start" "i < length xs"
  shows "valid (xs ! i)"
proof (cases "num = 1")
  case True
  then show ?thesis using assms by auto
next
  case False
  then obtain step where "map_err (axis_point start step) [0..num - 1] = Inr xs"
    using assms(1) by (auto simp: linspace_def split: sum.splits)
  then have "axis_point start step ([0..num - 1] ! i) = Inr (xs ! i)"
    using assms(3) map_err_length map_err_nth by metis
  then have "\<exists>f. fadd start (fmul f step) = xs ! i"
    by (auto simp: axis_point_def split: sum.splits)
  then obtain f where "xs ! i = fadd start (fmul f step)" by metis
  then show ?thesis by simp
qed

lemma sample_point_finite:
  assumes "is_double x" "is_double y"
  shows "sample_point (Fin x) (Fin y) = PyComplex (Fin x) (Fin y)"
  using assms by (simp add: sample_point_def complex_of_float_def c_sum_def c_prod_def fsub_def is_double_def)

lemma sample_point_valid:
  assumes "valid x" "valid y" "is_finite x" "is_finite y"
  shows "sample_point x y = PyComplex x y"
  using assms by (cases x; cases y) (simp_all add: sample_point_finite)

lemma grid_values_nth:
  "j < length ys \<Longrightarrow> i < length xs \<Longrightarrow>
   grid_values xs ys max_iter ! j ! i = mandelbrot_point (sample_point (xs ! i) (ys ! j)) max_iter"
  by (simp add: grid_values_def row_values_def)

lemma grid_values_length: "length (grid_values xs ys max_iter) = length ys"
  "j < length ys \<Longrightarrow> length (grid_values xs ys max_iter ! j) = length xs"
  by (simp_all add: grid_values_def row_values_def)

lemma mandelbrot_grid_Inr_D:
  assumes "mandelbrot_grid xmin xmax ymin ymax width height max_iter = Inr grid"
  shows "\<exists>xs ys. grid = grid_values xs ys max_iter"
proof -
  obtain xs ys where "linspace xmin xmax width = Inr xs" "linspace ymin ymax height = Inr ys"
    using assms by (auto simp: mandelbrot_grid_def split: sum.splits)
  then show ?thesis using mandelbrot_grid_eq [of xmin xmax width xs ymin ymax height ys max_iter] assms
    by auto
qed

lemma grid_values_range:
  assumes "0 \<le> max_iter" "row \<in> set (grid_values xs ys max_iter)" "v \<in> set row"
  shows "0 \<le> v \<and> v \<le> max_iter"
  using assms mandelbrot_point_range [OF assms(1)] by (auto simp: grid_values_def row_values_def)

text \<open>
  Claim C2.  For every complex \<open>c\<close> and every \<open>max_iter \<ge> 0\<close>, \<^verbatim>\<open>mandelbrot_point\<close>
  returns an integer in the closed range \<open>[0, max_iter]\<close>, and it returns \<open>max_iter\<close>
  exactly when none of the \<open>max_iter\<close> values of \<open>z\<close> escaped; consequently every cell
  of a grid returned by \<^verbatim>\<open>mandelbrot_grid\<close> lies in \<open>[0, max_iter]\<close>.
\<close>

theorem iteration_count_in_range:
  assumes "0 \<le> max_iter"
  shows "0 \<le> mandelbrot_point c max_iter \<and> mandelbrot_point c max_iter \<le> max_iter \<and>
         ((mandelbrot_point c max_iter = max_iter) = (\<forall>k<nat max_iter. \<not> escaped (orbit c (Suc k)))) \<and>
         (\<forall>grid. mandelbrot_grid xmin xmax ymin ymax width height max_iter = Inr grid \<longrightarrow>
            (\<forall>row\<in>set grid. \<forall>v\<in>set row. 0 \<le> v \<and> v \<le> max_iter))"
proof -
  have "0 \<le> v \<and> v \<le> max_iter"
    if g: "mandelbrot_grid xmin xmax ymin ymax width height max_iter = Inr grid"
      and r: "row \<in> set grid" and v: "v \<in> set row" for grid row v
  proof -
    obtain xs ys where "grid = grid_values xs ys max_iter"
      using mandelbrot_grid_Inr_D [OF g] by blast
    then show ?thesis using grid_values_range [OF assms _ v] r by simp
  qed
  then show ?thesis
    using mandelbrot_point_range [OF assms, of c] mandelbrot_point_budget [OF assms, of c] by blast
qed

theorem iteration_count_in_range_witness:
  "(0::int) \<le> 5 \<and>
   0 \<le> mandelbrot_point (PyComplex (Fin (1 / 4)) (Fin (1 / 2))) 5 \<and>
   mandelbrot_point (PyComplex (Fin (1 / 4)) (Fin (1 / 2))) 5 \<le> 5 \<and>
   (\<exists>grid. mandelbrot_grid (Fin 0) (Fin 1) (Fin 0) (Fin 1) 2 1 5 = Inr grid \<and>
      (\<forall>row\<in>set grid. \<forall>v\<in>set row. 0 \<le> v \<and> v \<le> 5))"
proof -
  obtain xs where xs: "linspace (Fin 0) (Fin 1) 2 = Inr xs"
    using linspace_total [of 2 "Fin 0" "Fin 1"] by auto
  have "mandelbrot_grid (Fin 0) (Fin 1) (Fin 0) (Fin 1) 2 1 5 = Inr (grid_values xs [Fin 0] 5)"
    using xs by (intro mandelbrot_grid_eq) simp_all
  then show ?thesis
    using iteration_count_in_range [of 5 "PyComplex (Fin (1 / 4)) (Fin (1 / 2))"
        "Fin 0" "Fin 1" "Fin 0" "Fin 1" 2 1]
    by simp
qed

lemma grid_values_no_columns: "grid_values [] ys max_iter = replicate (length ys) []"
  by (simp add: grid_values_def row_values_def map_replicate_const)

lemma grid_values_no_rows: "grid_values xs [] max_iter = []"
  by (simp add: grid_values_def)

lemma grid_without_columns:
  assumes "- (2 ^ 1023) < width" "width < 1" "- (2 ^ 1023) < height" "height \<le> 2 ^ 1023"
  shows "mandelbrot_grid xmin xmax ymin ymax width height max_iter = Inr (replicate (nat height) [])"
proof -
  have xs: "linspace xmin xmax width = Inr []" using assms by (intro linspace_nonpositive)
  obtain ys where ys: "linspace ymin ymax height = Inr ys"
    using linspace_total [of height ymin ymax] assms by auto
  show ?thesis
    using mandelbrot_grid_eq [OF xs ys] linspace_length [OF ys] by (simp add: grid_values_no_columns)
qed

lemma grid_without_rows:
  assumes "- (2 ^ 1023) < width" "width \<le> 2 ^ 1023" "- (2 ^ 1023) < height" "height < 1"
  shows "mandelbrot_grid xmin xmax ymin ymax width height max_iter = Inr []"
proof -
  have ys: "linspace ymin ymax height = Inr []" using assms by (intro linspace_nonpositive)
  obtain xs where xs: "linspace xmin xmax width = Inr xs"
    using linspace_total [of width xmin xmax] assms by auto
  show ?thesis
    using mandelbrot_grid_eq [OF xs ys] by (simp add: grid_values_no_rows)
qed

text \<open>
  Claim C10.  For \<open>num = 0\<close>, \<^verbatim>\<open>linspace\<close> returns the empty list without raising: the
  divisor \<open>num - 1\<close> is \<open>-1\<close>, not \<open>0\<close>, and the comprehension runs over an empty range.
  Consequently \<^verbatim>\<open>mandelbrot_grid\<close> with \<open>width = 0\<close> returns \<open>height\<close> rows that are each
  empty, and with \<open>height = 0\<close> it returns a grid with no rows; neither call fails.
\<close>

theorem zero_count_gives_empty:
  "linspace start stop 0 = Inr [] \<and>
   (0 \<le> height \<and> height \<le> 2 ^ 1023 \<longrightarrow>
      mandelbrot_grid xmin xmax ymin ymax 0 height max_iter = Inr (replicate (nat height) [])) \<and>
   (0 \<le> width \<and> width \<le> 2 ^ 1023 \<longrightarrow>
      mandelbrot_grid xmin xmax ymin ymax width 0 max_iter = Inr [])"
proof -
  have "linspace start stop 0 = Inr []" by (rule linspace_nonpositive) simp_all
  moreover have "mandelbrot_grid xmin xmax ymin ymax 0 height max_iter = Inr (replicate (nat height) [])"
    if "0 \<le> height" "height \<le> 2 ^ 1023"
    using that by (intro grid_without_columns) simp_all
  moreover have "mandelbrot_grid xmin xmax ymin ymax width 0 max_iter = Inr []"
    if "0 \<le> width" "width \<le> 2 ^ 1023"
    using that by (intro grid_without_rows) simp_all
  ultimately show ?thesis by blast
qed

theorem zero_count_gives_empty_witness:
  "linspace (Fin (- 2)) (Fin 1) 0 = Inr [] \<and>
   (0::int) \<le> 2 \<and> (2::int) \<le> 2 ^ 1023 \<and>
   mandelbrot_grid (Fin (- 2)) (Fin 1) (Fin (- 3 / 2)) (Fin (3 / 2)) 0 2 80 = Inr [[], []] \<and>
   mandelbrot_grid (Fin (- 2)) (Fin 1) (Fin (- 3 / 2)) (Fin (3 / 2)) 2 0 80 = Inr []"
  using zero_count_gives_empty [of "Fin (- 2)" "Fin 1" 2 "Fin (- 2)" "Fin 1" "Fin (- 3 / 2)" "Fin (3 / 2)" 80 2]
  by (simp add: numeral_2_eq_2)

text \<open>
  Claim C5, as the code has it.  The code has no argument check: for every \<open>num < 1\<close>
  (above \<open>-2^1023\<close>) \<^verbatim>\<open>linspace\<close> raises nothing and returns the empty list, and
  \<^verbatim>\<open>mandelbrot_grid\<close> does not fail either: with \<open>width < 1\<close> it returns its rows empty,
  with \<open>height < 1\<close> it returns a grid with no rows, and no cell is computed.
\<close>

theorem nonpositive_count_gives_empty:
  assumes "num < 1" "- (2 ^ 1023) < num"
  shows "linspace start stop num = Inr [] \<and>
         (- (2 ^ 1023) < height \<and> height \<le> 2 ^ 1023 \<longrightarrow>
            mandelbrot_grid xmin xmax ymin ymax num height max_iter = Inr (replicate (nat height) [])) \<and>
         (- (2 ^ 1023) < width \<and> width \<le> 2 ^ 1023 \<longrightarrow>
            mandelbrot_grid xmin xmax ymin ymax width num max_iter = Inr [])"
  using assms linspace_nonpositive [of num start stop]
    grid_without_columns [of num height xmin xmax ymin ymax max_iter]
    grid_without_rows [of width num xmin xmax ymin ymax max_iter]
  by blast

theorem nonpositive_count_gives_empty_witness:
  "(- 3::int) < 1 \<and> - (2 ^ 1023) < (- 3::int) \<and> (3::int) \<le> 2 ^ 1023 \<and>
   linspace (Fin 0) (Fin 1) (- 3) = Inr [] \<and>
   mandelbrot_grid (Fin 0) (Fin 1) (Fin 0) (Fin 1) (- 3) 3 80 = Inr [[], [], []] \<and>
   mandelbrot_grid (Fin 0) (Fin 1) (Fin 0) (Fin 1) 3 (- 3) 80 = Inr []"
  using nonpositive_count_gives_empty [of "- 3" "Fin 0" "Fin 1" 3 "Fin 0" "Fin 1" "Fin 0" "Fin 1" 80 3]
  by (simp add: numeral_3_eq_3)

text \<open>
  Claim C5 as the spec states it (an error for every count below 1) fails on the code:
  a count of \<open>-1\<close> gives the empty list, and a grid of width \<open>-1\<close> is returned with one
  empty row.
\<close>

theorem invalid_count_not_rejected:
  "linspace (Fin (- 2)) (Fin 1) (- 1) = Inr [] \<and>
   mandelbrot_grid (Fin (- 2)) (Fin 1) (Fin (- 3 / 2)) (Fin (3 / 2)) (- 1) 1 80 = Inr [[]]"
proof -
  have "linspace (Fin (- 2)) (Fin 1) (- 1) = Inr []"
    by (rule linspace_nonpositive) simp_all
  moreover have "mandelbrot_grid (Fin (- 2)) (Fin 1) (Fin (- 3 / 2)) (Fin (3 / 2)) (- 1) 1 80
                   = Inr (replicate (nat 1) [])"
    by (rule grid_without_columns) simp_all
  ultimately show ?thesis by simp
qed

section \<open>The default view sampled 3 by 3\<close>

lemma rnd_numeral:
  "(numeral a :: int) < 2 ^ 53 \<Longrightarrow> rnd (numeral a) = Fin (numeral a)"
  using rnd_of_int [of "numeral a"] by simp

lemma rnd_numeral_over_pow2:
  assumes "(numeral a :: int) < 2 ^ 53"
  shows "rnd (numeral a / 2) = Fin (numeral a / 2)"
    and "rnd (numeral a / 4) = Fin (numeral a / 4)"
    and "rnd (numeral a / 8) = Fin (numeral a / 8)"
    and "rnd (numeral a / 16) = Fin (numeral a / 16)"
  using rnd_dyadic [of "numeral a" 1] rnd_dyadic [of "numeral a" 2]
    rnd_dyadic [of "numeral a" 3] rnd_dyadic [of "numeral a" 4] assms
  by simp_all

lemma rnd_one_over_pow2:
  "rnd 1 = Fin 1" "rnd (1 / 2) = Fin (1 / 2)" "rnd (1 / 4) = Fin (1 / 4)"
  "rnd (1 / 8) = Fin (1 / 8)" "rnd (1 / 16) = Fin (1 / 16)"
  using rnd_dyadic [of 1 0] rnd_dyadic [of 1 1] rnd_dyadic [of 1 2] rnd_dyadic [of 1 3] rnd_dyadic [of 1 4]
  by simp_all

lemmas rnd_eval = rnd_numeral rnd_numeral_over_pow2 rnd_one_over_pow2 rnd_minus

lemma step_eval:
  "c_sum (c_prod (PyComplex (Fin a) (Fin b)) (PyComplex (Fin a) (Fin b))) (PyComplex (Fin x) (Fin y))
     = PyComplex (fadd (fsub (rnd (a * a)) (rnd (b * b))) (Fin x))
                 (fadd (fadd (rnd (a * b)) (rnd (b * a))) (Fin y))"
  by (simp add: c_sum_def c_prod_def)

lemma escaped_eval:
  "escaped (PyComplex (Fin a) (Fin b)) = fgt (fadd (rnd (a * a)) (rnd (b * b))) (Fin 4)"
  by (simp add: escaped_def)

lemma range_3: "[0..(2::int)] = [0, 1, 2]"
  using upto_rec1 [of 0 "2::int"] upto_rec1 [of 1 "2::int"] by simp

lemma range_2: "[0..(1::int)] = [0, 1]"
  using upto_rec1 [of 0 "1::int"] by simp

lemma default_xs: "linspace (Fin (- 2)) (Fin 1) 3 = Inr [Fin (- 2), Fin (- (1 / 2)), Fin 1]"
  by (simp add: linspace_def axis_step_def axis_point_def float_of_int_def fsub_def rnd_eval range_3)


lemmas cell_eval = mandelbrot_point_def loop_continues loop_escapes_now step_eval escaped_eval
  rnd_eval fsub_def

lemma corner_cells:
  "mandelbrot_point (PyComplex (Fin (- 2)) (Fin (- (3 / 2)))) 80 = 0"
  "mandelbrot_point (PyComplex (Fin (- 2)) (Fin (3 / 2))) 80 = 0"
  "mandelbrot_point (PyComplex (Fin 1) (Fin (- (3 / 2)))) 80 = 1"
  "mandelbrot_point (PyComplex (Fin 1) (Fin (3 / 2))) 80 = 1"
  by (simp_all add: cell_eval)

lemma edge_cells:
  "mandelbrot_point (PyComplex (Fin (- (1 / 2))) (Fin (- (3 / 2)))) 80 = 1"
  "mandelbrot_point (PyComplex (Fin (- (1 / 2))) (Fin (3 / 2))) 80 = 1"
  "mandelbrot_point (PyComplex (Fin 1) (Fin 0)) 80 = 2"
  by (simp_all add: cell_eval)










section \<open>Rounding in the sampler\<close>

lemma rnd_at_exponent:
  assumes "2 powi e \<le> \<bar>x\<bar>" "\<bar>x\<bar> < 2 powi (e + 1)" "- 1022 \<le> e" "e \<le> 1022"
  shows "rnd x = Fin (of_int (rne (x / 2 powi (e - 52))) * 2 powi (e - 52))"
proof -
  have e: "expo x = e" using expo_eq [OF assms(1,2)] assms(3) by simp
  have "\<bar>rnd_val x\<bar> \<le> 2 powi (e + 1)" using rnd_val_upper [of x] by (simp add: e)
  also have "\<dots> \<le> 2 powi 1023" using assms(4) by (simp only: pow2_le_iff)
  also have "\<dots> < 2 ^ 1024" by simp
  finally have "rnd x = Fin (rnd_val x)" by (rule rnd_Fin)
  then show ?thesis by (simp add: rnd_val_def ulp_def e)
qed

lemma rne_tie:
  assumes "x = of_int k + 1 / 2"
  shows "rne x = (if even k then k else k + 1)"
proof -
  have "\<lfloor>x\<rfloor> = k" by (rule floor_unique) (simp_all add: assms)
  then show ?thesis by (simp add: rne_def Let_def assms)
qed

section \<open>The order of the samples\<close>

lemma fle_rnd_inf [simp]: "fle (rnd x) PInf" "fle NInf (rnd x)"
  by (cases "rnd x"; simp)+

lemma fle_refl_inf [simp]: "fle PInf PInf" "fle NInf NInf" "fle NInf PInf"
  by simp_all

lemma fadd_mono:
  assumes "fle p q"
  shows "fle (fadd (Fin a) p) (fadd (Fin a) q)"
  using assms by (cases p; cases q) (simp_all add: rnd_mono)

lemma fmul_mono:
  assumes "0 \<le> s" "x \<le> y"
  shows "fle (fmul (Fin x) (Fin s)) (fmul (Fin y) (Fin s))"
  using assms by (simp add: rnd_mono mult_right_mono)

lemma axis_step_nonneg:
  assumes "1 < num" "num \<le> 2 ^ 1023" "a \<le> b" "is_finite (fsub (Fin b) (Fin a))"
  shows "\<exists>s. axis_step (Fin a) (Fin b) num = Inr (Fin s) \<and> 0 \<le> s"
proof -
  obtain d where d: "rnd (b - a) = Fin d"
    using assms(4) by (cases "rnd (b - a)") (simp_all add: fsub_def)
  then have dv: "d = rnd_val (b - a)" using rnd_Fin_D by blast
  have d0: "0 \<le> d" unfolding dv using assms(3) by (intro rnd_val_nonneg) simp
  have dd: "is_double d" using d by (rule rnd_is_double)
  obtain n where n: "float_of_int (num - 1) = Inr (Fin n)" "1 \<le> n"
    using float_of_int_ok [of "num - 1"] assms(1,2) by auto
  have "d / n \<le> d" using d0 n(2) by (simp add: field_simps mult_le_cancel_left1)
  moreover have "0 \<le> d / n" using d0 n(2) by simp
  ultimately obtain s where s: "rnd (d / n) = Fin s" "0 \<le> s"
    using rnd_between [of 0 "d / n" d] dd by auto
  have "axis_step (Fin a) (Fin b) num = Inr (Fin s)"
    using n s d by (simp add: axis_step_def fsub_def)
  then show ?thesis using s(2) by blast
qed

lemma rnd_int_mono:
  assumes "0 \<le> i" "i \<le> j" "j \<le> 2 ^ 1023"
  shows "\<exists>x y. rnd (of_int i) = Fin x \<and> rnd (of_int j) = Fin y \<and> x \<le> y"
proof -
  obtain x where x: "rnd (of_int i) = Fin x" using float_of_int_ok [of i] assms by auto
  obtain y where y: "rnd (of_int j) = Fin y" using float_of_int_ok [of j] assms by auto
  have "(of_int i :: rat) \<le> of_int j" using assms(2) by simp
  then have "fle (rnd (of_int i)) (rnd (of_int j))" by (rule rnd_mono)
  then show ?thesis using x y by simp
qed

lemma axis_sorted:
  assumes "0 \<le> s" "num \<le> 2 ^ 1023"
  shows "sorted_wrt fle (map (\<lambda>i. fadd (Fin a) (fmul (rnd (of_int i)) (Fin s))) [0..num - 1])"
proof -
  have "fle (fadd (Fin a) (fmul (rnd (of_int i)) (Fin s))) (fadd (Fin a) (fmul (rnd (of_int j)) (Fin s)))"
    if "i \<in> set [0..num - 1]" "j \<in> set [0..num - 1]" "i < j" for i j
  proof -
    have "0 \<le> i" "i \<le> j" "j \<le> 2 ^ 1023" using that assms(2) by simp_all
    then obtain x y where xy: "rnd (of_int i) = Fin x" "rnd (of_int j) = Fin y" "x \<le> y"
      using rnd_int_mono [of i j] by blast
    show ?thesis unfolding xy using assms(1) xy(3) by (intro fadd_mono fmul_mono)
  qed
  then have "sorted_wrt (\<lambda>i j. fle (fadd (Fin a) (fmul (rnd (of_int i)) (Fin s)))
                                  (fadd (Fin a) (fmul (rnd (of_int j)) (Fin s)))) [0..num - 1]"
    by (intro sorted_wrt_mono_rel [OF _ sorted_wrt_upto [of 0 "num - 1"]]) blast
  then show ?thesis by (simp add: sorted_wrt_map)
qed

lemma linspace_elements:
  assumes "1 < num" "num \<le> 2 ^ 1023"
  shows "\<exists>step. axis_step start stop num = Inr step \<and>
           linspace start stop num =
             Inr (map (\<lambda>i. fadd start (fmul (rnd (of_int i)) step)) [0..num - 1]) \<and>
           (\<forall>i<nat num. axis_point start step (int i) =
              Inr (map (\<lambda>i. fadd start (fmul (rnd (of_int i)) step)) [0..num - 1] ! i))"
proof -
  obtain step where step: "axis_step start stop num = Inr step"
    "linspace start stop num = Inr (map (\<lambda>i. fadd start (fmul (rnd (of_int i)) step)) [0..num - 1])"
    using linspace_general [of num start stop] assms by auto
  have "axis_point start step (int i) =
          Inr (map (\<lambda>i. fadd start (fmul (rnd (of_int i)) step)) [0..num - 1] ! i)"
    if "i < nat num" for i
  proof -
    have "- (2 ^ 1023) \<le> int i" "int i \<le> 2 ^ 1023" using that assms by simp_all
    then obtain y where "float_of_int (int i) = Inr (Fin y)" "rnd (of_int (int i)) = Fin y"
      using float_of_int_ok [of "int i"] by blast
    then show ?thesis using that by (simp add: axis_point_def)
  qed
  then show ?thesis using step by blast
qed

section \<open>The rounding error of the last sample\<close>

lemma rnd_val_relative_error: "\<bar>rnd_val x - x\<bar> \<le> (1 / 2 ^ 53) * \<bar>x\<bar> + 1 / 2 ^ 1075"
proof (cases "- 1022 < expo x")
  case True
  have "ulp x = 2 powi (expo x) / 2 ^ 52"
    using ulp_scale(2) [of x] by simp
  also have "\<dots> \<le> \<bar>x\<bar> / 2 ^ 52"
    using expo_lower [OF True] by (simp add: divide_right_mono)
  finally have "ulp x / 2 \<le> (1 / 2 ^ 53) * \<bar>x\<bar>" by simp
  with rnd_val_error [of x] have "\<bar>rnd_val x - x\<bar> \<le> (1 / 2 ^ 53) * \<bar>x\<bar>"
    by (rule order_trans)
  also have "\<dots> \<le> (1 / 2 ^ 53) * \<bar>x\<bar> + 1 / 2 ^ 1075" by simp
  finally show ?thesis .
next
  case False
  then have "expo x = - 1022" using expo_ge [of x] by simp
  then have "ulp x = 2 powi (- 1074)" by (simp add: ulp_def)
  also have "\<dots> = 1 / 2 ^ 1074"
    using power_int_minus_divide [of "2::rat" 1074] by simp
  finally have "ulp x / 2 = 1 / 2 ^ 1075" by simp
  with rnd_val_error [of x] have "\<bar>rnd_val x - x\<bar> \<le> 1 / 2 ^ 1075" by simp
  also have "\<dots> \<le> (1 / 2 ^ 53) * \<bar>x\<bar> + 1 / 2 ^ 1075" by simp
  finally show ?thesis .
qed

lemma small_part:
  fixes u x :: rat
  assumes "0 \<le> u" "u \<le> 1 / 16" "0 \<le> x"
  shows "u * x \<le> x / 16"
  using mult_right_mono [OF assms(2,3)] by simp

lemma error_sum:
  fixes t :: rat
  assumes "t \<le> e1 + e2 + e3 + e4" "e1 \<le> x + h" "e2 \<le> ud + nh" "e3 \<le> us + h" "e4 \<le> up + h"
    "ud \<le> x + e1 / 16" "us \<le> x + (e1 / 16 + e2 / 16)" "up \<le> y + (e1 / 16 + e2 / 16 + e3 / 16)"
    "x \<le> 2 * m" "y \<le> m" "h \<le> nh" "0 \<le> h" "0 \<le> m"
  shows "t \<le> 8 * m + (2 * nh + 4 * h)"
  using assms by linarith

lemma product_bound:
  fixes t :: rat
  assumes "t \<le> v + e2" "v \<le> w + e1" "e1 \<le> x + h" "e2 \<le> ud + nh" "ud \<le> x + e1 / 16"
    "x \<le> w / 16" "h \<le> nh" "0 \<le> h" "0 \<le> w"
  shows "t \<le> (5 / 4) * w + 2 * nh + h"
  using assms by linarith

lemma error_chain:
  fixes a b d s p l n u h :: rat
  assumes u: "0 \<le> u" "u \<le> 1 / 16" and h: "0 \<le> h" and n: "1 \<le> n"
    and e1: "\<bar>d - (b - a)\<bar> \<le> u * \<bar>b - a\<bar> + h"
    and e2: "\<bar>s - d / n\<bar> \<le> u * \<bar>d / n\<bar> + h"
    and e3: "\<bar>p - n * s\<bar> \<le> u * \<bar>n * s\<bar> + h"
    and e4: "\<bar>l - (a + p)\<bar> \<le> u * \<bar>a + p\<bar> + h"
  shows "\<bar>l - b\<bar> \<le> 8 * (u * max \<bar>a\<bar> \<bar>b\<bar>) + (2 * (n * h) + 4 * h)"
    and "\<bar>n * s\<bar> \<le> (5 / 4) * \<bar>b - a\<bar> + 2 * (n * h) + h"
proof -
  define M where "M = max \<bar>a\<bar> \<bar>b\<bar>"
  define D where "D = \<bar>b - a\<bar>"
  define E1 where "E1 = \<bar>d - (b - a)\<bar>"
  define E2 where "E2 = \<bar>n * s - d\<bar>"
  define E3 where "E3 = \<bar>p - n * s\<bar>"
  define E4 where "E4 = \<bar>l - (a + p)\<bar>"
  have M: "0 \<le> M" "\<bar>b\<bar> \<le> M" "D \<le> 2 * M" "0 \<le> D"
    by (simp_all add: M_def D_def)
  have nh: "h \<le> n * h" using mult_right_mono [OF n h] by simp
  have uM: "u * D \<le> 2 * (u * M)" "u * \<bar>b\<bar> \<le> u * M" "0 \<le> u * D"
    using mult_left_mono [OF M(3) u(1)] mult_left_mono [OF M(2) u(1)] u(1) M(4) by simp_all
  have 1: "E1 \<le> u * D + h" using e1 by (simp add: E1_def D_def)
  have E0: "0 \<le> E1" "0 \<le> E2" "0 \<le> E3" "0 \<le> E4"
    by (simp_all add: E1_def E2_def E3_def E4_def)
  have d: "\<bar>d\<bar> \<le> D + E1" unfolding D_def E1_def by linarith
  have npos: "0 < n" using n by simp
  have "E2 = n * \<bar>s - d / n\<bar>"
  proof -
    have "n * s - d = n * (s - d / n)" using npos by (simp add: field_simps)
    then show ?thesis using npos by (simp add: E2_def abs_mult)
  qed
  also have "\<dots> \<le> n * (u * \<bar>d / n\<bar> + h)"
    using e2 npos by (intro mult_left_mono) simp_all
  also have "\<dots> = u * \<bar>d\<bar> + n * h"
    using npos by (simp add: field_simps)
  finally have 2: "E2 \<le> u * \<bar>d\<bar> + n * h" .
  have "u * \<bar>d\<bar> \<le> u * (D + E1)" using d u(1) by (intro mult_left_mono)
  also have "\<dots> = u * D + u * E1" by (simp add: algebra_simps)
  also have "\<dots> \<le> u * D + E1 / 16" using small_part [OF u E0(1)] by simp
  finally have ud: "u * \<bar>d\<bar> \<le> u * D + E1 / 16" .
  have ns: "\<bar>n * s\<bar> \<le> \<bar>d\<bar> + E2" unfolding E2_def by linarith
  have 3: "E3 \<le> u * \<bar>n * s\<bar> + h" using e3 by (simp add: E3_def)
  have "u * \<bar>n * s\<bar> \<le> u * (D + E1 + E2)" using ns d u(1) by (intro mult_left_mono) simp_all
  also have "\<dots> = u * D + u * (E1 + E2)" by (simp add: algebra_simps)
  also have "\<dots> \<le> u * D + (E1 + E2) / 16" using small_part [OF u, of "E1 + E2"] E0 by simp
  finally have uns: "u * \<bar>n * s\<bar> \<le> u * D + (E1 / 16 + E2 / 16)"
    by (simp add: add_divide_distrib)
  have ap: "\<bar>a + p\<bar> \<le> \<bar>b\<bar> + E1 + E2 + E3" unfolding E1_def E2_def E3_def by linarith
  have 4: "E4 \<le> u * \<bar>a + p\<bar> + h" using e4 by (simp add: E4_def)
  have "u * \<bar>a + p\<bar> \<le> u * (\<bar>b\<bar> + (E1 + E2 + E3))" using ap u(1) by (intro mult_left_mono) simp_all
  also have "\<dots> = u * \<bar>b\<bar> + u * (E1 + E2 + E3)" by (simp add: algebra_simps)
  also have "\<dots> \<le> u * \<bar>b\<bar> + (E1 + E2 + E3) / 16" using small_part [OF u, of "E1 + E2 + E3"] E0 by simp
  finally have uap: "u * \<bar>a + p\<bar> \<le> u * \<bar>b\<bar> + (E1 / 16 + E2 / 16 + E3 / 16)"
    by (simp add: add_divide_distrib)
  have tot: "\<bar>l - b\<bar> \<le> E1 + E2 + E3 + E4" unfolding E1_def E2_def E3_def E4_def by linarith
  show "\<bar>l - b\<bar> \<le> 8 * (u * max \<bar>a\<bar> \<bar>b\<bar>) + (2 * (n * h) + 4 * h)"
    unfolding M_def [symmetric]
    by (rule error_sum [OF tot 1 2 3 4 ud uns uap uM(1,2) nh h]) (simp add: u(1) M(1))
  have "u * D \<le> D / 16" using small_part [OF u M(4)] .
  then show "\<bar>n * s\<bar> \<le> (5 / 4) * \<bar>b - a\<bar> + 2 * (n * h) + h"
    unfolding D_def [symmetric]
    by (rule product_bound [OF ns d 1 2 ud _ nh h M(4)])
qed

lemma big_doubles:
  "is_double (2 * 2 ^ 1021)" "is_double (4 * 2 ^ 1021)" "is_double (5 * 2 ^ 1021)"
  by (rule is_doubleI [of _ 1 1022], simp_all)
     (rule is_doubleI [of _ 1 1023], simp_all, rule is_doubleI [of _ 5 1021], simp_all)

lemma rnd_bounded:
  assumes "\<bar>x\<bar> \<le> c" "is_double c"
  shows "rnd x = Fin (rnd_val x) \<and> \<bar>rnd_val x\<bar> \<le> c"
proof -
  have "is_double (- c)" using assms(2) by simp
  moreover have "- c \<le> x" "x \<le> c" using assms(1) by linarith+
  ultimately obtain y where y: "rnd x = Fin y" "- c \<le> y" "y \<le> c"
    using rnd_between [of "- c" x c] assms(2) by blast
  then have "y = rnd_val x" using rnd_Fin_D by blast
  then show ?thesis using y by simp
qed

lemma product_fits:
  fixes t :: rat
  assumes "t \<le> (5 / 4) * w + 2 * nh + h" "w \<le> 2 * c" "nh \<le> 4 * ch" "0 \<le> h" "h \<le> 1 / 16"
    "8 * ch \<le> 1" "1 \<le> c"
  shows "t \<le> 4 * c"
  using assms by linarith

lemma bound_sum:
  fixes t :: rat
  assumes "t \<le> x + y" "x = x'" "y \<le> y'"
  shows "t \<le> x' + y'"
  using assms by linarith

lemma last_sample_close:
  assumes num: "1 < num" "num \<le> 2 ^ 1023" and a: "\<bar>a\<bar> \<le> 2 ^ 1021" and b: "\<bar>b\<bar> \<le> 2 ^ 1021"
  shows "\<exists>s l. axis_step (Fin a) (Fin b) num = Inr (Fin s) \<and>
           fadd (Fin a) (fmul (rnd (of_int (num - 1))) (Fin s)) = Fin l \<and>
           \<bar>l - b\<bar> \<le> max \<bar>a\<bar> \<bar>b\<bar> / 2 ^ 50 + of_int num / 2 ^ 1073"
proof -
  define B :: rat where "B = 2 ^ 1021"
  define u :: rat where "u = 1 / 2 ^ 53"
  define h :: rat where "h = 1 / 2 ^ 1075"
  define k where "k = num - 1"
  have B: "1 \<le> B" "is_double (2 * B)" "is_double (4 * B)" "is_double (5 * B)" "4 * B = 2 ^ 1023"
    using big_doubles by (simp_all add: B_def)
  have uh: "0 \<le> u" "u \<le> 1 / 16" "0 \<le> h" "h \<le> 1 / 16" "8 * (B * h) \<le> 1"
    "8 * u = 1 / 2 ^ 50" "4 * h = 1 / 2 ^ 1073"
    by (simp_all add: u_def h_def B_def)
  have err: "\<bar>rnd_val x - x\<bar> \<le> u * \<bar>x\<bar> + h" for x
    unfolding u_def h_def by (rule rnd_val_relative_error)
  have k: "1 \<le> k" "k \<le> 2 ^ 1023" using num by (simp_all add: k_def)
  obtain n where n: "float_of_int k = Inr (Fin n)" "rnd (of_int k) = Fin n" "1 \<le> n" "n \<le> 4 * B"
    using float_of_int_pos [OF k] B(5) by auto
  have nv: "n = rnd_val (of_int k)" using n(2) rnd_Fin_D by blast
  define d where "d = rnd_val (b - a)"
  define s where "s = rnd_val (d / n)"
  define p where "p = rnd_val (n * s)"
  define l where "l = rnd_val (a + p)"
  have ab: "\<bar>b - a\<bar> \<le> 2 * B" using a b by (simp add: B_def)
  have d: "rnd (b - a) = Fin d" "\<bar>d\<bar> \<le> 2 * B"
    using rnd_bounded [OF ab B(2)] by (simp_all add: d_def)
  have "1 * \<bar>d\<bar> \<le> n * \<bar>d\<bar>" using n(3) by (intro mult_right_mono) simp_all
  then have "\<bar>d / n\<bar> \<le> \<bar>d\<bar>"
    using n(3) by (simp add: field_simps)
  then have "\<bar>d / n\<bar> \<le> 2 * B" using d(2) by linarith
  then have s: "rnd (d / n) = Fin s"
    using rnd_bounded [OF _ B(2)] by (simp add: s_def)
  have step: "axis_step (Fin a) (Fin b) num = Inr (Fin s)"
    using n(1,3) d(1) s by (simp add: axis_step_def fsub_def k_def)
  note chain = error_chain [OF uh(1,2,3) n(3), of d b a s p l,
      OF err [of "b - a", folded d_def] err [of "d / n", folded s_def]
         err [of "n * s", folded p_def] err [of "a + p", folded l_def]]
  have "n * h \<le> 4 * B * h" using n(4) uh(3) by (intro mult_right_mono)
  then have nh: "n * h \<le> 4 * (B * h)" by simp
  have ns: "\<bar>n * s\<bar> \<le> 4 * B"
    by (rule product_fits [OF chain(2) ab nh uh(3,4,5) B(1)])
  have p: "rnd (n * s) = Fin p" "\<bar>p\<bar> \<le> 4 * B"
    using rnd_bounded [OF ns B(3)] by (simp_all add: p_def)
  have "\<bar>a + p\<bar> \<le> 5 * B" using a p(2) by (simp add: B_def)
  then have l: "rnd (a + p) = Fin l"
    using rnd_bounded [OF _ B(4)] by (simp add: l_def)
  have last: "fadd (Fin a) (fmul (rnd (of_int (num - 1))) (Fin s)) = Fin l"
    using n(2) p(1) l by (simp add: k_def)
  have "\<bar>n - of_int k\<bar> \<le> u * \<bar>of_int k\<bar> + h" unfolding nv by (rule err)
  moreover have "u * \<bar>of_int k :: rat\<bar> \<le> \<bar>of_int k\<bar> / 16"
    by (rule small_part [OF uh(1,2)]) simp
  moreover have k1: "(1::rat) \<le> of_int k" using k(1) by simp
  ultimately have n2: "n \<le> 2 * of_int k" using uh(4) by linarith
  have "2 * (n * h) + 4 * h \<le> 4 * h * of_int num"
  proof -
    have "n * h \<le> 2 * of_int k * h" using n2 uh(3) by (intro mult_right_mono)
    moreover have "(of_int num :: rat) = of_int k + 1" by (simp add: k_def)
    ultimately show ?thesis by (simp add: algebra_simps)
  qed
  then have "2 * (n * h) + 4 * h \<le> of_int num / 2 ^ 1073" by (simp add: uh(7))
  moreover have "8 * (u * max \<bar>a\<bar> \<bar>b\<bar>) = max \<bar>a\<bar> \<bar>b\<bar> / 2 ^ 50"
    using uh(6) by (simp add: mult.assoc [symmetric])
  ultimately have "\<bar>l - b\<bar> \<le> max \<bar>a\<bar> \<bar>b\<bar> / 2 ^ 50 + of_int num / 2 ^ 1073"
    by (intro bound_sum [OF chain(1)])
  then show ?thesis using step last by blast
qed

section \<open>The two ends of the sample axis\<close>

lemma first_sample:
  assumes "valid start" "is_finite step"
  shows "fadd start (fmul (rnd (of_int 0)) step) = start"
  using assms by (cases start; cases step) (simp_all add: is_double_def)

lemma last_range: "0 \<le> n \<Longrightarrow> last [0..n] = n"
  using upto_rec2 [of 0 n] by simp

text \<open>
  Claim C3, as the code has it.  For every \<open>num \<ge> 1\<close> (up to \<open>2^1023\<close>)
  \<^verbatim>\<open>linspace(start, stop, num)\<close> has exactly \<open>num\<close> elements.  When \<open>num = 1\<close> the result
  is exactly \<open>[start]\<close>, whatever \<open>stop\<close> is.  When \<open>num > 1\<close>, element \<open>i\<close> is
  \<^verbatim>\<open>start + i * step\<close> in float arithmetic with \<^verbatim>\<open>step = (stop - start) / (num - 1)\<close>;
  element \<open>0\<close> equals \<open>start\<close> provided the step is finite; and for finite \<open>start\<close> and
  \<open>stop\<close> of magnitude at most \<open>2^1021\<close> the last element is finite and differs from
  \<open>stop\<close> by at most \<open>2^-50\<close> times the larger of \<open>|start|\<close> and \<open>|stop|\<close>, plus
  \<open>num\<close> times \<open>2^-1073\<close> for results in the subnormal range.
\<close>

theorem linspace_length_and_ends:
  assumes "1 \<le> num" "num \<le> 2 ^ 1023"
  shows "\<exists>xs. linspace start stop num = Inr xs \<and> length xs = nat num \<and>
           (num = 1 \<longrightarrow> xs = [start]) \<and>
           (1 < num \<longrightarrow>
              (\<exists>step. axis_step start stop num = Inr step \<and>
                 (\<forall>i<nat num. axis_point start step (int i) = Inr (xs ! i)) \<and>
                 (valid start \<and> is_finite step \<longrightarrow> xs ! 0 = start) \<and>
                 (\<forall>a b. start = Fin a \<and> stop = Fin b \<and> \<bar>a\<bar> \<le> 2 ^ 1021 \<and> \<bar>b\<bar> \<le> 2 ^ 1021 \<longrightarrow>
                    (\<exists>l. last xs = Fin l \<and>
                       \<bar>l - b\<bar> \<le> max \<bar>a\<bar> \<bar>b\<bar> / 2 ^ 50 + of_int num / 2 ^ 1073))))"
proof (cases "num = 1")
  case True
  then show ?thesis by simp
next
  case False
  then have num: "1 < num" using assms(1) by simp
  obtain step where step: "axis_step start stop num = Inr step"
    "linspace start stop num = Inr (map (\<lambda>i. fadd start (fmul (rnd (of_int i)) step)) [0..num - 1])"
    "\<forall>i<nat num. axis_point start step (int i) =
              Inr (map (\<lambda>i. fadd start (fmul (rnd (of_int i)) step)) [0..num - 1] ! i)"
    using linspace_elements [OF num assms(2), of start stop] by blast
  let ?xs = "map (\<lambda>i. fadd start (fmul (rnd (of_int i)) step)) [0..num - 1]"
  have len: "length ?xs = nat num" by simp
  have first: "?xs ! 0 = start" if "valid start" "is_finite step"
    using first_sample [OF that] num by simp
  have lst: "last ?xs = fadd start (fmul (rnd (of_int (num - 1))) step)"
    using num by (simp add: last_map last_range)
  have close: "\<exists>l. last ?xs = Fin l \<and> \<bar>l - b\<bar> \<le> max \<bar>a\<bar> \<bar>b\<bar> / 2 ^ 50 + of_int num / 2 ^ 1073"
    if ab: "start = Fin a" "stop = Fin b" and bd: "\<bar>a\<bar> \<le> 2 ^ 1021" "\<bar>b\<bar> \<le> 2 ^ 1021" for a b
  proof -
    obtain s l where sl: "axis_step (Fin a) (Fin b) num = Inr (Fin s)"
      "fadd (Fin a) (fmul (rnd (of_int (num - 1))) (Fin s)) = Fin l"
      "\<bar>l - b\<bar> \<le> max \<bar>a\<bar> \<bar>b\<bar> / 2 ^ 50 + of_int num / 2 ^ 1073"
      using last_sample_close [OF num assms(2) bd] by blast
    have "step = Fin s" using sl(1) step(1) ab by simp
    then have "last ?xs = Fin l" using lst sl(2) ab by simp
    then show ?thesis using sl(3) by blast
  qed
  show ?thesis
    using False num step(1,2,3) len first close by (intro exI [of _ ?xs]) blast
qed

lemma default_step: "axis_step (Fin (- 2)) (Fin 1) 3 = Inr (Fin (3 / 2))"
  by (simp add: axis_step_def float_of_int_def fsub_def rnd_eval)

theorem linspace_length_and_ends_witness:
  "(1::int) \<le> 3 \<and> (3::int) \<le> 2 ^ 1023 \<and> valid (Fin (- 2)) \<and>
   \<bar>- 2 :: rat\<bar> \<le> 2 ^ 1021 \<and> \<bar>1 :: rat\<bar> \<le> 2 ^ 1021 \<and>
   (\<exists>xs l. linspace (Fin (- 2)) (Fin 1) 3 = Inr xs \<and> length xs = 3 \<and> xs ! 0 = Fin (- 2) \<and>
      last xs = Fin l \<and> \<bar>l - 1\<bar> \<le> 2 / 2 ^ 50 + 3 / 2 ^ 1073)"
proof -
  have v: "valid (Fin (- 2))" using is_double_int [of "- 2"] by simp
  obtain xs step where w: "linspace (Fin (- 2)) (Fin 1) 3 = Inr xs" "length xs = nat 3"
    "axis_step (Fin (- 2)) (Fin 1) 3 = Inr step"
    "valid (Fin (- 2)) \<and> is_finite step \<longrightarrow> xs ! 0 = Fin (- 2)"
    "\<forall>a b. Fin (- 2) = Fin a \<and> Fin 1 = Fin b \<and> \<bar>a\<bar> \<le> 2 ^ 1021 \<and> \<bar>b\<bar> \<le> 2 ^ 1021 \<longrightarrow>
       (\<exists>l. last xs = Fin l \<and> \<bar>l - b\<bar> \<le> max \<bar>a\<bar> \<bar>b\<bar> / 2 ^ 50 + of_int 3 / 2 ^ 1073)"
    using linspace_length_and_ends [of 3 "Fin (- 2)" "Fin 1"] by auto
  have "step = Fin (3 / 2)" using w(3) default_step by simp
  then have "is_finite step" by simp
  then have f: "xs ! 0 = Fin (- 2)" using w(4) v by simp
  obtain l where "last xs = Fin l" "\<bar>l - 1\<bar> \<le> max \<bar>- 2\<bar> \<bar>1 :: rat\<bar> / 2 ^ 50 + of_int 3 / 2 ^ 1073"
    using w(5) by force
  then show ?thesis using w(1,2) f v by auto
qed

lemma rnd_overflow: "rnd (2 ^ 1024) = PInf"
proof -
  have "rnd_val (2 ^ 1024) = 2 ^ 1024"
    by (rule rnd_val_exact [of _ 1 1024]) simp_all
  then show ?thesis by (simp add: rnd_def)
qed

lemma huge_doubles: "is_double (2 ^ 1023)" "is_double (- (2 ^ 1023))"
  using is_double_pow1023 by simp_all

lemma overflowing_axis:
  "linspace (Fin (- (2 ^ 1023))) (Fin (2 ^ 1023)) 2 = Inr [NaN, PInf]"
proof -
  have "fsub (Fin (2 ^ 1023)) (Fin (- (2 ^ 1023))) = rnd (2 ^ 1024)"
    by (simp add: fsub_def)
  then have d: "fsub (Fin (2 ^ 1023)) (Fin (- (2 ^ 1023))) = PInf"
    by (simp only: rnd_overflow)
  have s: "axis_step (Fin (- (2 ^ 1023))) (Fin (2 ^ 1023)) 2 = Inr PInf"
    unfolding axis_step_def d by (simp add: float_of_int_def rnd_eval inf_of_sign_def)
  show ?thesis
    unfolding linspace_def s
    by (simp add: axis_point_def float_of_int_def rnd_eval inf_of_sign_def range_2)
qed

text \<open>
  Claim C3 as the spec states it (for every \<open>start\<close> and \<open>stop\<close>, element \<open>0\<close> equals
  \<open>start\<close> and the last element is close to \<open>stop\<close>) fails on the code when the
  difference overflows: for \<open>start = -2^1023\<close> and \<open>stop = 2^1023\<close> the step is
  infinite, element \<open>0\<close> is \<open>start + 0 * inf\<close>, a NaN, and the last element is infinite.
\<close>

theorem overflowing_difference:
  "valid (Fin (- (2 ^ 1023))) \<and> valid (Fin (2 ^ 1023)) \<and>
   linspace (Fin (- (2 ^ 1023))) (Fin (2 ^ 1023)) 2 = Inr [NaN, PInf]"
  using overflowing_axis huge_doubles by simp

section \<open>The shape and the cells of the grid\<close>

lemma two_rows_ys: "linspace (Fin (- (3 / 2))) (Fin (3 / 2)) 2 = Inr [Fin (- (3 / 2)), Fin (3 / 2)]"
  by (simp add: linspace_def axis_step_def axis_point_def float_of_int_def fsub_def rnd_eval range_2)

lemma default_bounds_valid: "valid (Fin (- 2))" "valid (Fin (- (3 / 2)))"
  by (simp_all add: is_double_def rnd_eval)

lemma fadd_NaN [simp]: "fadd x NaN = NaN"
  by (cases x) simp_all

lemma NaN_never_escapes:
  assumes "creal c = NaN"
  shows "mandelbrot_loop c max_iter z n k = max_iter"
proof (induction k arbitrary: z n)
  case 0
  then show ?case by simp
next
  case (Suc k)
  have r: "creal (c_sum (c_prod z z) c) = NaN" by (simp add: c_sum_def assms)
  have "\<not> escaped (c_sum (c_prod z z) c)" by (simp add: escaped_def r)
  then show ?case using Suc.IH by simp
qed

lemma infinite_ordinate_point: "sample_point (Fin 0) PInf = PyComplex NaN PInf"
  by (simp add: sample_point_def complex_of_float_def c_sum_def c_prod_def fsub_def inf_of_sign_def)

lemma NaN_ordinate_point: "creal (sample_point (Fin 0) NaN) = NaN"
  by (simp add: sample_point_def complex_of_float_def c_sum_def c_prod_def fsub_def)

lemma infinite_point_escapes: "mandelbrot_point (PyComplex (Fin 0) PInf) 80 = 0"
proof -
  have "escaped (c_sum (c_prod (PyComplex (Fin 0) (Fin 0)) (PyComplex (Fin 0) (Fin 0)))
          (PyComplex (Fin 0) PInf))"
    by (simp add: first_step escaped_def inf_of_sign_def)
  then show ?thesis
    unfolding mandelbrot_point_def by (rule loop_escapes_now) simp
qed

text \<open>
  Claim C1, as the code has it.  For every \<open>width \<ge> 1\<close> and \<open>height \<ge> 1\<close> (up to
  \<open>2^1023\<close>: a larger \<^verbatim>\<open>int\<close> does not convert to a float, and no list is that long),
  \<^verbatim>\<open>mandelbrot_grid\<close> returns a grid with exactly \<open>height\<close> rows of \<open>width\<close> columns,
  and the cell in row \<open>j\<close> and column \<open>i\<close> is \<^verbatim>\<open>mandelbrot_point\<close> of
  \<^verbatim>\<open>xs[i] + 1j * ys[j]\<close> with the given \<open>max_iter\<close>, where \<open>xs\<close> and \<open>ys\<close> are the two
  \<^verbatim>\<open>linspace\<close> results: the row index follows the imaginary axis, the column index
  the real axis.  Whenever the two coordinates \<open>xs[i]\<close> and \<open>ys[j]\<close> are finite (the
  bounds being floats), the cell is the escape-time evaluation of the complex point with
  real part \<open>xs[i]\<close> and imaginary part \<open>ys[j]\<close>.
\<close>

theorem mandelbrot_grid_shape_and_cells:
  assumes "1 \<le> width" "width \<le> 2 ^ 1023" "1 \<le> height" "height \<le> 2 ^ 1023"
  shows "\<exists>xs ys grid.
           linspace xmin xmax width = Inr xs \<and> linspace ymin ymax height = Inr ys \<and>
           mandelbrot_grid xmin xmax ymin ymax width height max_iter = Inr grid \<and>
           length grid = nat height \<and>
           (\<forall>j<nat height. length (grid ! j) = nat width \<and>
              (\<forall>i<nat width.
                 grid ! j ! i = mandelbrot_point (sample_point (xs ! i) (ys ! j)) max_iter \<and>
                 (valid xmin \<and> valid ymin \<and> is_finite (xs ! i) \<and> is_finite (ys ! j) \<longrightarrow>
                    grid ! j ! i = mandelbrot_point (PyComplex (xs ! i) (ys ! j)) max_iter)))"
proof -
  obtain xs where xs: "linspace xmin xmax width = Inr xs"
    using linspace_total [of width xmin xmax] assms by auto
  obtain ys where ys: "linspace ymin ymax height = Inr ys"
    using linspace_total [of height ymin ymax] assms by auto
  have lx: "length xs = nat width" and ly: "length ys = nat height"
    using xs ys by (simp_all add: linspace_length)
  have g: "mandelbrot_grid xmin xmax ymin ymax width height max_iter = Inr (grid_values xs ys max_iter)"
    using xs ys by (rule mandelbrot_grid_eq)
  have "sample_point (xs ! i) (ys ! j) = PyComplex (xs ! i) (ys ! j)"
    if "i < nat width" "j < nat height" "valid xmin" "valid ymin" "is_finite (xs ! i)" "is_finite (ys ! j)"
    for i j
    using that linspace_valid [OF xs] linspace_valid [OF ys] lx ly
    by (intro sample_point_valid) simp_all
  then show ?thesis
    using xs ys g lx ly by (auto simp: grid_values_nth grid_values_length)
qed

theorem mandelbrot_grid_shape_and_cells_witness:
  "(1::int) \<le> 3 \<and> (3::int) \<le> 2 ^ 1023 \<and> (1::int) \<le> 2 \<and> (2::int) \<le> 2 ^ 1023 \<and>
   valid (Fin (- 2)) \<and> valid (Fin (- (3 / 2))) \<and>
   (\<exists>grid. mandelbrot_grid (Fin (- 2)) (Fin 1) (Fin (- (3 / 2))) (Fin (3 / 2)) 3 2 80 = Inr grid \<and>
      length grid = 2 \<and> length (grid ! 0) = 3 \<and> length (grid ! 1) = 3 \<and>
      grid ! 1 ! 0 = mandelbrot_point (PyComplex (Fin (- 2)) (Fin (3 / 2))) 80 \<and>
      grid ! 0 ! 1 = mandelbrot_point (PyComplex (Fin (- (1 / 2))) (Fin (- (3 / 2)))) 80 \<and>
      grid ! 1 ! 2 = mandelbrot_point (PyComplex (Fin 1) (Fin (3 / 2))) 80 \<and>
      grid ! 1 ! 0 = 0 \<and> grid ! 0 ! 1 = 1 \<and> grid ! 1 ! 2 = 1)"
proof -
  obtain xs ys grid where w:
    "linspace (Fin (- 2)) (Fin 1) 3 = Inr xs" "linspace (Fin (- (3 / 2))) (Fin (3 / 2)) 2 = Inr ys"
    "mandelbrot_grid (Fin (- 2)) (Fin 1) (Fin (- (3 / 2))) (Fin (3 / 2)) 3 2 80 = Inr grid"
    "length grid = nat 2"
    and cells: "\<forall>j<nat 2. length (grid ! j) = nat 3 \<and>
        (\<forall>i<nat 3. grid ! j ! i = mandelbrot_point (sample_point (xs ! i) (ys ! j)) 80 \<and>
           (valid (Fin (- 2)) \<and> valid (Fin (- (3 / 2))) \<and> is_finite (xs ! i) \<and> is_finite (ys ! j) \<longrightarrow>
              grid ! j ! i = mandelbrot_point (PyComplex (xs ! i) (ys ! j)) 80))"
    using mandelbrot_grid_shape_and_cells
      [of 3 2 "Fin (- 2)" "Fin 1" "Fin (- (3 / 2))" "Fin (3 / 2)" 80]
    by auto
  have xs: "xs = [Fin (- 2), Fin (- (1 / 2)), Fin 1]" using w(1) default_xs by simp
  have ys: "ys = [Fin (- (3 / 2)), Fin (3 / 2)]" using w(2) two_rows_ys by simp
  note v = default_bounds_valid
  have r0: "length (grid ! 0) = 3" and r1: "length (grid ! 1) = 3"
    using cells by simp_all
  have c10: "grid ! 1 ! 0 = mandelbrot_point (PyComplex (Fin (- 2)) (Fin (3 / 2))) 80"
    using cells [rule_format, of 1, THEN conjunct2, rule_format, of 0] v by (simp add: xs ys)
  have c01: "grid ! 0 ! 1 = mandelbrot_point (PyComplex (Fin (- (1 / 2))) (Fin (- (3 / 2)))) 80"
    using cells [rule_format, of 0, THEN conjunct2, rule_format, of 1] v by (simp add: xs ys)
  have c12: "grid ! 1 ! 2 = mandelbrot_point (PyComplex (Fin 1) (Fin (3 / 2))) 80"
    using cells [rule_format, of 1, THEN conjunct2, rule_format, of 2] v by (simp add: xs ys)
  show ?thesis
    using w(3,4) r0 r1 c10 c01 c12 v by (simp add: corner_cells edge_cells)
qed

text \<open>
  Claim C1 as the spec states it (every cell is the escape-time evaluation of the point
  \<open>(xs[i], ys[j])\<close>, for every parameter bundle) fails on the code when a coordinate is
  not finite.  With \<open>ymin = -2^1023\<close>, \<open>ymax = 2^1023\<close> and \<open>height = 2\<close> the ordinates are
  NaN and infinity; \<^verbatim>\<open>0.0 + 1j * inf\<close> has a NaN real part, which never passes the test
  \<^verbatim>\<open>> 4.0\<close>, so both cells hold 80, while the point with real part 0 and infinite
  imaginary part escapes at index 0.
\<close>

theorem infinite_ordinate_cell:
  "linspace (Fin 0) (Fin 0) 1 = Inr [Fin 0] \<and>
   linspace (Fin (- (2 ^ 1023))) (Fin (2 ^ 1023)) 2 = Inr [NaN, PInf] \<and>
   mandelbrot_grid (Fin 0) (Fin 0) (Fin (- (2 ^ 1023))) (Fin (2 ^ 1023)) 1 2 80 = Inr [[80], [80]] \<and>
   mandelbrot_point (PyComplex (Fin 0) PInf) 80 = 0"
proof -
  have g: "mandelbrot_grid (Fin 0) (Fin 0) (Fin (- (2 ^ 1023))) (Fin (2 ^ 1023)) 1 2 80
             = Inr (grid_values [Fin 0] [NaN, PInf] 80)"
    by (rule mandelbrot_grid_eq [OF linspace_one overflowing_axis])
  have "mandelbrot_point (sample_point (Fin 0) NaN) 80 = 80"
    unfolding mandelbrot_point_def by (rule NaN_never_escapes [OF NaN_ordinate_point])
  moreover have "mandelbrot_point (sample_point (Fin 0) PInf) 80 = 80"
    unfolding mandelbrot_point_def by (rule NaN_never_escapes) (simp add: infinite_ordinate_point)
  ultimately have "grid_values [Fin 0] [NaN, PInf] 80 = [[80], [80]]"
    by (simp add: grid_values_def row_values_def)
  then show ?thesis
    using g overflowing_axis infinite_point_escapes by simp
qed

section \<open>The spacing of the samples\<close>

lemma step_error_sum:
  fixes t :: rat
  assumes "t \<le> t1 + t2 + t3" "t1 \<le> ud + h" "t2 \<le> ud + hh" "hh \<le> ud" "t3 \<le> e1"
    "ud \<le> x + e1 / 16" "e1 \<le> x + h" "x \<le> 2 * m" "0 \<le> h" "0 \<le> m"
  shows "t \<le> 16 * m + 4 * h"
  using assms by linarith

lemma step_error:
  fixes a b d s n N u h :: rat
  assumes u: "0 \<le> u" "u \<le> 1 / 16" and h: "0 \<le> h" "h \<le> u" and n: "1 \<le> n" and N: "1 \<le> N"
    and eN: "\<bar>N - n\<bar> \<le> u * n + h"
    and e1: "\<bar>d - (b - a)\<bar> \<le> u * \<bar>b - a\<bar> + h"
    and e2: "\<bar>s - d / N\<bar> \<le> u * \<bar>d / N\<bar> + h"
  shows "\<bar>s - (b - a) / n\<bar> \<le> 16 * (u * max \<bar>a\<bar> \<bar>b\<bar>) + 4 * h"
proof -
  define M where "M = max \<bar>a\<bar> \<bar>b\<bar>"
  define D where "D = \<bar>b - a\<bar>"
  define E1 where "E1 = \<bar>d - (b - a)\<bar>"
  have M: "0 \<le> M" "D \<le> 2 * M" "0 \<le> D" by (simp_all add: M_def D_def)
  have uM: "u * D \<le> 2 * (u * M)" "0 \<le> u * M"
    using mult_left_mono [OF M(2) u(1)] u(1) M(1) by simp_all
  have 1: "E1 \<le> u * D + h" using e1 by (simp add: E1_def D_def)
  have E0: "0 \<le> E1" by (simp add: E1_def)
  have d: "\<bar>d\<bar> \<le> D + E1" unfolding D_def E1_def by linarith
  have "u * \<bar>d\<bar> \<le> u * (D + E1)" using d u(1) by (intro mult_left_mono)
  also have "\<dots> = u * D + u * E1" by (simp add: algebra_simps)
  also have "\<dots> \<le> u * D + E1 / 16" using small_part [OF u E0] by simp
  finally have ud: "u * \<bar>d\<bar> \<le> u * D + E1 / 16" .
  have Npos: "0 < N" and npos: "0 < n" using N n by simp_all
  have "1 * \<bar>d\<bar> \<le> N * \<bar>d\<bar>" using N by (intro mult_right_mono) simp_all
  then have dN: "\<bar>d / N\<bar> \<le> \<bar>d\<bar>" using Npos by (simp add: field_simps)
  have "u * \<bar>d / N\<bar> \<le> u * \<bar>d\<bar>" using dN u(1) by (intro mult_left_mono)
  then have t1: "\<bar>s - d / N\<bar> \<le> u * \<bar>d\<bar> + h" using e2 by linarith
  have hd: "h * \<bar>d\<bar> \<le> u * \<bar>d\<bar>" using h(2) by (intro mult_right_mono) simp_all
  have "\<bar>d / N - d / n\<bar> = \<bar>d\<bar> * (\<bar>n - N\<bar> / (N * n))"
  proof -
    have "d / N - d / n = d * ((n - N) / (N * n))"
      using Npos npos by (simp add: field_simps)
    then show ?thesis using Npos npos by (simp add: abs_mult)
  qed
  also have "\<dots> \<le> \<bar>d\<bar> * (u + h)"
  proof -
    have "h * 1 \<le> h * n" using n h(1) by (intro mult_left_mono)
    then have "\<bar>n - N\<bar> \<le> (u + h) * n" using eN by (simp add: algebra_simps)
    also have "(u + h) * n = (u + h) * (1 * n)" by simp
    also have "\<dots> \<le> (u + h) * (N * n)"
      using N npos u(1) h(1) by (intro mult_left_mono mult_right_mono) simp_all
    finally have "\<bar>n - N\<bar> / (N * n) \<le> u + h"
      using Npos npos by (simp add: pos_divide_le_eq)
    then show ?thesis by (intro mult_left_mono) simp_all
  qed
  also have "\<dots> = u * \<bar>d\<bar> + h * \<bar>d\<bar>" by (simp add: algebra_simps)
  finally have t2: "\<bar>d / N - d / n\<bar> \<le> u * \<bar>d\<bar> + h * \<bar>d\<bar>" .
  have "\<bar>d / n - (b - a) / n\<bar> = E1 / n"
  proof -
    have "d / n - (b - a) / n = (d - (b - a)) / n" by (simp add: diff_divide_distrib)
    then show ?thesis using npos by (simp add: E1_def)
  qed
  also have "\<dots> \<le> E1"
  proof -
    have "E1 * 1 \<le> E1 * n" using n E0 by (intro mult_left_mono)
    then show ?thesis using npos by (simp add: pos_divide_le_eq)
  qed
  finally have t3: "\<bar>d / n - (b - a) / n\<bar> \<le> E1" .
  have tot: "\<bar>s - (b - a) / n\<bar> \<le> \<bar>s - d / N\<bar> + \<bar>d / N - d / n\<bar> + \<bar>d / n - (b - a) / n\<bar>"
    by linarith
  show ?thesis
    unfolding M_def [symmetric]
    by (rule step_error_sum [OF tot t1 t2 hd t3 ud 1 uM(1) h(1) uM(2)])
qed

lemma spacing_error_sum:
  fixes t :: rat
  assumes "t \<le> ey + ex + eq + ep + r" "ex \<le> uap + h" "ey \<le> uaq + h" "ep \<le> up + h" "eq \<le> up + h"
    "uap \<le> um + up + ep / 16" "uaq \<le> um + up + eq / 16" "0 \<le> h" "0 \<le> up"
  shows "t \<le> 2 * um + 5 * up + 5 * h + r"
  using assms by linarith

lemma spacing_error:
  fixes a s f g p q x y u h M P R :: rat
  assumes u: "0 \<le> u" "u \<le> 1 / 16" and h: "0 \<le> h" and a: "\<bar>a\<bar> \<le> M"
    and fs: "\<bar>f * s\<bar> \<le> P" and gs: "\<bar>g * s\<bar> \<le> P"
    and ep: "\<bar>p - f * s\<bar> \<le> u * \<bar>f * s\<bar> + h" and eq: "\<bar>q - g * s\<bar> \<le> u * \<bar>g * s\<bar> + h"
    and ex: "\<bar>x - (a + p)\<bar> \<le> u * \<bar>a + p\<bar> + h" and ey: "\<bar>y - (a + q)\<bar> \<le> u * \<bar>a + q\<bar> + h"
    and r: "\<bar>(g - f - 1) * s\<bar> \<le> R"
  shows "\<bar>y - x - s\<bar> \<le> 2 * (u * M) + 5 * (u * P) + 5 * h + R"
proof -
  define Ep where "Ep = \<bar>p - f * s\<bar>"
  define Eq where "Eq = \<bar>q - g * s\<bar>"
  define Ex where "Ex = \<bar>x - (a + p)\<bar>"
  define Ey where "Ey = \<bar>y - (a + q)\<bar>"
  have E0: "0 \<le> Ep" "0 \<le> Eq" by (simp_all add: Ep_def Eq_def)
  have "u * \<bar>f * s\<bar> \<le> u * P" "u * \<bar>g * s\<bar> \<le> u * P"
    using fs gs u(1) by (simp_all add: mult_left_mono)
  then have 1: "Ep \<le> u * P + h" "Eq \<le> u * P + h" using ep eq by (simp_all add: Ep_def Eq_def)
  have "\<bar>a + p\<bar> \<le> M + (P + Ep)" using a fs unfolding Ep_def by linarith
  then have "u * \<bar>a + p\<bar> \<le> u * (M + (P + Ep))" using u(1) by (intro mult_left_mono)
  also have "\<dots> = u * M + u * P + u * Ep" by (simp add: algebra_simps)
  also have "\<dots> \<le> u * M + u * P + Ep / 16" using small_part [OF u E0(1)] by simp
  finally have uap: "u * \<bar>a + p\<bar> \<le> u * M + u * P + Ep / 16" .
  have "\<bar>a + q\<bar> \<le> M + (P + Eq)" using a gs unfolding Eq_def by linarith
  then have "u * \<bar>a + q\<bar> \<le> u * (M + (P + Eq))" using u(1) by (intro mult_left_mono)
  also have "\<dots> = u * M + u * P + u * Eq" by (simp add: algebra_simps)
  also have "\<dots> \<le> u * M + u * P + Eq / 16" using small_part [OF u E0(2)] by simp
  finally have uaq: "u * \<bar>a + q\<bar> \<le> u * M + u * P + Eq / 16" .
  have 2: "Ex \<le> u * \<bar>a + p\<bar> + h" "Ey \<le> u * \<bar>a + q\<bar> + h"
    using ex ey by (simp_all add: Ex_def Ey_def)
  have "y - x - s = (y - (a + q)) - (x - (a + p)) + (q - g * s) - (p - f * s) + (g - f - 1) * s"
    by (simp add: algebra_simps)
  then have tot: "\<bar>y - x - s\<bar> \<le> Ey + Ex + Eq + Ep + \<bar>(g - f - 1) * s\<bar>"
    unfolding Ey_def Ex_def Eq_def Ep_def by linarith
  have "\<bar>y - x - s\<bar> \<le> 2 * (u * M) + 5 * (u * P) + 5 * h + \<bar>(g - f - 1) * s\<bar>"
  proof (rule spacing_error_sum [OF tot 2(1) 2(2) 1(1) 1(2) uap uaq h])
    have "0 \<le> P" using fs by linarith
    then show "0 \<le> u * P" using u(1) by simp
  qed
  then show ?thesis using r by linarith
qed

lemma successor_gap:
  fixes f g s i n N u h P :: rat
  assumes u: "0 \<le> u" "u \<le> 1 / 16" and h: "0 \<le> h" "h \<le> u" and i: "0 \<le> i" "i + 1 \<le> n"
    and N: "1 \<le> N"
    and ef: "\<bar>f - i\<bar> \<le> u * i + h" and eg: "\<bar>g - (i + 1)\<bar> \<le> u * (i + 1) + h"
    and eN: "\<bar>N - n\<bar> \<le> u * n + h" and Ns: "\<bar>N * s\<bar> \<le> P"
  shows "\<bar>(g - f - 1) * s\<bar> \<le> 6 * (u * P)"
proof -
  define S where "S = \<bar>s\<bar>"
  have S: "0 \<le> S" by (simp add: S_def)
  have n: "1 \<le> n" using i by linarith
  have ui: "u * i \<le> u * n" "u * (i + 1) \<le> u * n"
    using i u(1) by (simp_all add: mult_left_mono)
  have c: "\<bar>g - f - 1\<bar> \<le> 2 * (u * n) + 2 * h" using ef eg ui by linarith
  have "u * n \<le> n / 16" using small_part [OF u, of n] n by simp
  then have n2: "n \<le> 2 * N" using eN h u(2) n by linarith
  have NS: "N * S \<le> P" using Ns N by (simp add: S_def abs_mult)
  have "1 * S \<le> N * S" using N S by (intro mult_right_mono)
  then have SP: "S \<le> P" using NS by simp
  have P: "0 \<le> P" using S SP by simp
  have "n * S \<le> (2 * N) * S" using n2 S by (intro mult_right_mono)
  then have nS: "n * S \<le> 2 * P" using NS by simp
  have "\<bar>(g - f - 1) * s\<bar> = \<bar>g - f - 1\<bar> * S" by (simp add: S_def abs_mult)
  also have "\<dots> \<le> (2 * (u * n) + 2 * h) * S" using c S by (intro mult_right_mono)
  also have "\<dots> = 2 * (u * (n * S)) + 2 * (h * S)" by (simp add: algebra_simps)
  also have "\<dots> \<le> 2 * (u * (2 * P)) + 2 * (u * P)"
  proof -
    have "u * (n * S) \<le> u * (2 * P)" using nS u(1) by (intro mult_left_mono)
    moreover have "h * S \<le> u * P" using h SP S P by (intro mult_mono) simp_all
    ultimately show ?thesis by linarith
  qed
  also have "\<dots> = 6 * (u * P)" by simp
  finally show ?thesis .
qed

lemma spacing_total:
  fixes t :: rat
  assumes "t \<le> 2 * um + 5 * up + 5 * h + 6 * up" "up \<le> (5 / 2) * um + w / 16" "w = 2 * nh + h"
    "nh \<le> 2 * kh" "0 \<le> nh" "0 \<le> h" "0 \<le> um" "ch = kh + h"
  shows "t \<le> 32 * um + 8 * ch"
  using assms by linarith

lemma sample_spacing:
  assumes num: "1 < num" "num \<le> 2 ^ 1023" and a: "\<bar>a\<bar> \<le> 2 ^ 1021" and b: "\<bar>b\<bar> \<le> 2 ^ 1021"
  shows "\<exists>s. axis_step (Fin a) (Fin b) num = Inr (Fin s) \<and>
           \<bar>s - (b - a) / of_int (num - 1)\<bar> \<le> max \<bar>a\<bar> \<bar>b\<bar> / 2 ^ 49 + 1 / 2 ^ 1073 \<and>
           (\<forall>i. 0 \<le> i \<and> i + 1 \<le> num - 1 \<longrightarrow>
              (\<exists>x y. fadd (Fin a) (fmul (rnd (of_int i)) (Fin s)) = Fin x \<and>
                     fadd (Fin a) (fmul (rnd (of_int (i + 1))) (Fin s)) = Fin y \<and>
                     \<bar>y - x - s\<bar> \<le> max \<bar>a\<bar> \<bar>b\<bar> / 2 ^ 48 + of_int num / 2 ^ 1072))"
proof -
  define B :: rat where "B = 2 ^ 1021"
  define u :: rat where "u = 1 / 2 ^ 53"
  define h :: rat where "h = 1 / 2 ^ 1075"
  define M where "M = max \<bar>a\<bar> \<bar>b\<bar>"
  define k where "k = num - 1"
  have B: "1 \<le> B" "is_double (2 * B)" "is_double (4 * B)" "is_double (5 * B)" "4 * B = 2 ^ 1023"
    using big_doubles by (simp_all add: B_def)
  have uh: "0 \<le> u" "u \<le> 1 / 16" "0 \<le> h" "h \<le> 1 / 16" "8 * (B * h) \<le> 1" "h \<le> u"
    by (simp_all add: u_def h_def B_def)
  have pw: "16 * u = 1 / 2 ^ 49" "4 * h = 1 / 2 ^ 1073" "32 * u = 1 / 2 ^ 48" "8 * h = 1 / 2 ^ 1072"
    by (simp_all add: u_def h_def)
  have err: "\<bar>rnd_val x - x\<bar> \<le> u * \<bar>x\<bar> + h" for x
    unfolding u_def h_def by (rule rnd_val_relative_error)
  have M: "0 \<le> M" "\<bar>a\<bar> \<le> M" "\<bar>b - a\<bar> \<le> 2 * M" by (simp_all add: M_def)
  have k: "1 \<le> k" "k \<le> 2 ^ 1023" using num by (simp_all add: k_def)
  have kr: "(1::rat) \<le> of_int k" using k(1) by simp
  obtain n where n: "float_of_int k = Inr (Fin n)" "rnd (of_int k) = Fin n" "1 \<le> n" "n \<le> 4 * B"
    using float_of_int_pos [OF k] B(5) by auto
  have nv: "n = rnd_val (of_int k)" using n(2) rnd_Fin_D by blast
  have eN: "\<bar>n - of_int k\<bar> \<le> u * of_int k + h"
    using err [of "of_int k"] kr unfolding nv by simp
  define d where "d = rnd_val (b - a)"
  define s where "s = rnd_val (d / n)"
  define p where "p = rnd_val (n * s)"
  define l where "l = rnd_val (a + p)"
  have ab: "\<bar>b - a\<bar> \<le> 2 * B" using a b by (simp add: B_def)
  have d: "rnd (b - a) = Fin d" "\<bar>d\<bar> \<le> 2 * B"
    using rnd_bounded [OF ab B(2)] by (simp_all add: d_def)
  have "1 * \<bar>d\<bar> \<le> n * \<bar>d\<bar>" using n(3) by (intro mult_right_mono) simp_all
  then have "\<bar>d / n\<bar> \<le> \<bar>d\<bar>"
    using n(3) by (simp add: field_simps)
  then have "\<bar>d / n\<bar> \<le> 2 * B" using d(2) by linarith
  then have s: "rnd (d / n) = Fin s"
    using rnd_bounded [OF _ B(2)] by (simp add: s_def)
  have step: "axis_step (Fin a) (Fin b) num = Inr (Fin s)"
    using n(1,3) d(1) s by (simp add: axis_step_def fsub_def k_def)
  note e1 = err [of "b - a", folded d_def] and e2 = err [of "d / n", folded s_def]
  note chain = error_chain [OF uh(1,2,3) n(3), of d b a s p l,
      OF e1 e2 err [of "n * s", folded p_def] err [of "a + p", folded l_def]]
  define P where "P = (5 / 4) * \<bar>b - a\<bar> + 2 * (n * h) + h"
  have nsP: "\<bar>n * s\<bar> \<le> P" using chain(2) by (simp add: P_def)
  have "n * h \<le> 4 * B * h" using n(4) uh(3) by (intro mult_right_mono)
  then have nh: "n * h \<le> 4 * (B * h)" by simp
  have nh0: "0 \<le> n * h" using n(3) uh(3) by simp
  have ns: "\<bar>n * s\<bar> \<le> 4 * B"
    by (rule product_fits [OF chain(2) ab nh uh(3,4,5) B(1)])
  have "\<bar>s - (b - a) / of_int k\<bar> \<le> 16 * (u * max \<bar>a\<bar> \<bar>b\<bar>) + 4 * h"
    by (rule step_error [OF uh(1,2,3,6) kr n(3) eN e1 e2])
  then have stepclose: "\<bar>s - (b - a) / of_int (num - 1)\<bar> \<le> max \<bar>a\<bar> \<bar>b\<bar> / 2 ^ 49 + 1 / 2 ^ 1073"
    using pw(1,2) by (simp add: k_def mult.assoc [symmetric])
  have "u * \<bar>of_int k :: rat\<bar> \<le> \<bar>of_int k\<bar> / 16"
    by (rule small_part [OF uh(1,2)]) simp
  then have n2: "n \<le> 2 * of_int k" using eN kr uh(4) by linarith
  have "n * h \<le> 2 * of_int k * h" using n2 uh(3) by (intro mult_right_mono)
  then have nkh: "n * h \<le> 2 * (of_int k * h)" by simp
  have uP: "u * P \<le> (5 / 2) * (u * M) + (2 * (n * h) + h) / 16"
  proof -
    have "P \<le> (5 / 2) * M + (2 * (n * h) + h)" using M(3) by (simp add: P_def)
    then have "u * P \<le> u * ((5 / 2) * M + (2 * (n * h) + h))" using uh(1) by (intro mult_left_mono)
    also have "\<dots> = (5 / 2) * (u * M) + u * (2 * (n * h) + h)" by (simp add: algebra_simps)
    also have "\<dots> \<le> (5 / 2) * (u * M) + (2 * (n * h) + h) / 16"
      using small_part [OF uh(1,2), of "2 * (n * h) + h"] nh0 uh(3) by simp
    finally show ?thesis .
  qed
  have element: "\<exists>f p x. rnd (of_int j) = Fin f \<and> f = rnd_val (of_int j) \<and> \<bar>f * s\<bar> \<le> P \<and>
                   p = rnd_val (f * s) \<and> x = rnd_val (a + p) \<and>
                   fadd (Fin a) (fmul (rnd (of_int j)) (Fin s)) = Fin x"
    if j: "0 \<le> j" "j \<le> k" for j
  proof -
    obtain f n' where f: "rnd (of_int j) = Fin f" "rnd (of_int k) = Fin n'" "f \<le> n'"
      using rnd_int_mono [OF j k(2)] by blast
    have fn: "f \<le> n" using f(2,3) n(2) by simp
    have fv: "f = rnd_val (of_int j)" using f(1) rnd_Fin_D by blast
    have f0: "0 \<le> f" unfolding fv using j(1) by (intro rnd_val_nonneg) simp
    have "f * \<bar>s\<bar> \<le> n * \<bar>s\<bar>" using fn by (intro mult_right_mono) simp_all
    then have fs: "\<bar>f * s\<bar> \<le> \<bar>n * s\<bar>" using f0 n(3) by (simp add: abs_mult)
    then have fsB: "\<bar>f * s\<bar> \<le> 4 * B" using ns by linarith
    have pj: "rnd (f * s) = Fin (rnd_val (f * s))" "\<bar>rnd_val (f * s)\<bar> \<le> 4 * B"
      using rnd_bounded [OF fsB B(3)] by simp_all
    have "\<bar>a + rnd_val (f * s)\<bar> \<le> 5 * B" using a pj(2) by (simp add: B_def)
    then have xj: "rnd (a + rnd_val (f * s)) = Fin (rnd_val (a + rnd_val (f * s)))"
      using rnd_bounded [OF _ B(4)] by simp
    have "fadd (Fin a) (fmul (rnd (of_int j)) (Fin s)) = Fin (rnd_val (a + rnd_val (f * s)))"
      by (simp add: f(1) pj(1) xj)
    then show ?thesis using f(1) fv fs nsP by auto
  qed
  have spaced: "\<exists>x y. fadd (Fin a) (fmul (rnd (of_int i)) (Fin s)) = Fin x \<and>
                     fadd (Fin a) (fmul (rnd (of_int (i + 1))) (Fin s)) = Fin y \<and>
                     \<bar>y - x - s\<bar> \<le> max \<bar>a\<bar> \<bar>b\<bar> / 2 ^ 48 + of_int num / 2 ^ 1072"
    if i: "0 \<le> i" "i + 1 \<le> num - 1" for i
  proof -
    have ik: "0 \<le> i" "i \<le> k" "0 \<le> i + 1" "i + 1 \<le> k" using i by (simp_all add: k_def)
    obtain f p x where f: "rnd (of_int i) = Fin f" "f = rnd_val (of_int i)" "\<bar>f * s\<bar> \<le> P"
      "p = rnd_val (f * s)" "x = rnd_val (a + p)"
      "fadd (Fin a) (fmul (rnd (of_int i)) (Fin s)) = Fin x"
      using element [OF ik(1,2)] by blast
    obtain g q y where g: "rnd (of_int (i + 1)) = Fin g" "g = rnd_val (of_int (i + 1))" "\<bar>g * s\<bar> \<le> P"
      "q = rnd_val (g * s)" "y = rnd_val (a + q)"
      "fadd (Fin a) (fmul (rnd (of_int (i + 1))) (Fin s)) = Fin y"
      using element [OF ik(3,4)] by blast
    have ir: "(0::rat) \<le> of_int i" "(of_int i :: rat) + 1 \<le> of_int k"
      using ik(1) of_int_le_iff [of "i + 1" k, where ?'a = rat] ik(4) by simp_all
    have ef: "\<bar>f - of_int i\<bar> \<le> u * of_int i + h"
      using err [of "of_int i"] ir(1) unfolding f(2) by simp
    have eg: "\<bar>g - (of_int i + 1)\<bar> \<le> u * (of_int i + 1) + h"
      using err [of "of_int i + 1"] ir(1) unfolding g(2) by simp
    have gap: "\<bar>(g - f - 1) * s\<bar> \<le> 6 * (u * P)"
      by (rule successor_gap [OF uh(1,2,3,6) ir n(3) ef eg eN nsP])
    have "\<bar>y - x - s\<bar> \<le> 2 * (u * M) + 5 * (u * P) + 5 * h + 6 * (u * P)"
      unfolding f(5) g(5) f(4) g(4)
      by (rule spacing_error [OF uh(1,2,3) M(2) f(3) g(3) err err err err gap])
    then have "\<bar>y - x - s\<bar> \<le> 32 * (u * M) + 8 * ((of_int k + 1) * h)"
      using uP nkh nh0 uh(3) M(1) uh(1)
      by (intro spacing_total [where nh = "n * h" and kh = "of_int k * h" and h = h
            and up = "u * P" and w = "2 * (n * h) + h"]) (simp_all add: algebra_simps)
    moreover have "(of_int k :: rat) + 1 = of_int num" by (simp add: k_def)
    ultimately have X: "\<bar>y - x - s\<bar> \<le> 32 * (u * M) + 8 * (of_int num * h)" by simp
    have A: "32 * (u * M) = M / 2 ^ 48" unfolding u_def by simp
    have H: "8 * (of_int num * h) = of_int num / 2 ^ 1072" unfolding h_def by simp
    have "\<bar>y - x - s\<bar> \<le> max \<bar>a\<bar> \<bar>b\<bar> / 2 ^ 48 + of_int num / 2 ^ 1072"
      using X unfolding A H by (simp only: M_def)
    then show ?thesis using f(6) g(6) by blast
  qed
  show ?thesis using step stepclose spaced by blast
qed

lemma range_5: "[0..(4::int)] = [0, 1, 2, 3, 4]"
  using upto_rec1 [of 0 "4::int"] upto_rec1 [of 1 "4::int"] upto_rec1 [of 2 "4::int"]
    upto_rec1 [of 3 "4::int"] by simp

lemma rnd_above_2_53:
  "rnd 9007199254740992 = Fin 9007199254740992"
  "rnd 9007199254740993 = Fin 9007199254740992"
  "rnd 9007199254740994 = Fin 9007199254740994"
  "rnd 9007199254740995 = Fin 9007199254740996"
  "rnd 9007199254740996 = Fin 9007199254740996"
proof -
  show "rnd 9007199254740992 = Fin 9007199254740992"
    using rnd_of_int [of 9007199254740992] by simp
  have "rne (9007199254740993 / 2 powi (53 - 52)) = 4503599627370496"
    using rne_tie [of "9007199254740993 / 2 powi (53 - 52)" 4503599627370496] by simp
  then show "rnd 9007199254740993 = Fin 9007199254740992"
    using rnd_at_exponent [of 53 9007199254740993] by simp
  show "rnd 9007199254740994 = Fin 9007199254740994"
    by (rule rnd_exact [of _ 4503599627370497 1]) simp_all
  have "rne (9007199254740995 / 2 powi (53 - 52)) = 4503599627370498"
    using rne_tie [of "9007199254740995 / 2 powi (53 - 52)" 4503599627370497] by simp
  then show "rnd 9007199254740995 = Fin 9007199254740996"
    using rnd_at_exponent [of 53 9007199254740995] by simp
  show "rnd 9007199254740996 = Fin 9007199254740996"
    by (rule rnd_exact [of _ 4503599627370498 1]) simp_all
qed

lemma coarse_axis:
  "axis_step (Fin 9007199254740992) (Fin 9007199254740996) 5 = Inr (Fin 1)"
  "linspace (Fin 9007199254740992) (Fin 9007199254740996) 5 =
     Inr [Fin 9007199254740992, Fin 9007199254740992, Fin 9007199254740994,
          Fin 9007199254740996, Fin 9007199254740996]"
proof -
  show s: "axis_step (Fin 9007199254740992) (Fin 9007199254740996) 5 = Inr (Fin 1)"
    by (simp add: axis_step_def float_of_int_def fsub_def rnd_eval)
  show "linspace (Fin 9007199254740992) (Fin 9007199254740996) 5 =
     Inr [Fin 9007199254740992, Fin 9007199254740992, Fin 9007199254740994,
          Fin 9007199254740996, Fin 9007199254740996]"
    by (simp add: linspace_def s axis_point_def float_of_int_def range_5 rnd_eval rnd_above_2_53)
qed

text \<open>
  Claim C8, as the code has it.  For every \<open>num > 1\<close> (up to \<open>2^1023\<close>) element \<open>i\<close> of
  \<^verbatim>\<open>linspace(start, stop, num)\<close> is \<^verbatim>\<open>start + i * step\<close> evaluated in float arithmetic,
  with the one float \<^verbatim>\<open>step = (stop - start) / (num - 1)\<close>.  For finite \<open>start\<close> and
  \<open>stop\<close> of magnitude at most \<open>2^1021\<close>, with \<open>m\<close> the larger of \<open>|start|\<close> and \<open>|stop|\<close>:
  the step is within \<open>2^-49 m + 2^-1073\<close> of the exact quotient
  \<open>(stop - start) / (num - 1)\<close>, all elements are finite, and every two consecutive
  elements differ by the step up to an error of at most \<open>2^-48 m + num * 2^-1072\<close>: the
  error is relative to the size of the end points, not to the step.  Whenever \<open>start\<close>
  and \<open>stop\<close> are finite with \<open>stop \<ge> start\<close> and their difference does not overflow,
  the returned sequence is non-decreasing.
\<close>

theorem linspace_spacing_and_order:
  assumes "1 < num" "num \<le> 2 ^ 1023"
  shows "\<exists>step xs. axis_step start stop num = Inr step \<and> linspace start stop num = Inr xs \<and>
           length xs = nat num \<and>
           (\<forall>i<nat num. axis_point start step (int i) = Inr (xs ! i)) \<and>
           (\<forall>a b. start = Fin a \<and> stop = Fin b \<and> \<bar>a\<bar> \<le> 2 ^ 1021 \<and> \<bar>b\<bar> \<le> 2 ^ 1021 \<longrightarrow>
              (\<exists>s. step = Fin s \<and>
                 \<bar>s - (b - a) / of_int (num - 1)\<bar> \<le> max \<bar>a\<bar> \<bar>b\<bar> / 2 ^ 49 + 1 / 2 ^ 1073 \<and>
                 (\<forall>i. Suc i < nat num \<longrightarrow>
                    (\<exists>x y. xs ! i = Fin x \<and> xs ! Suc i = Fin y \<and>
                       \<bar>y - x - s\<bar> \<le> max \<bar>a\<bar> \<bar>b\<bar> / 2 ^ 48 + of_int num / 2 ^ 1072)))) \<and>
           (\<forall>a b. start = Fin a \<and> stop = Fin b \<and> a \<le> b \<and> is_finite (fsub stop start)
                  \<longrightarrow> sorted_wrt fle xs)"
proof -
  obtain step where step: "axis_step start stop num = Inr step"
    "linspace start stop num = Inr (map (\<lambda>i. fadd start (fmul (rnd (of_int i)) step)) [0..num - 1])"
    "\<forall>i<nat num. axis_point start step (int i) =
              Inr (map (\<lambda>i. fadd start (fmul (rnd (of_int i)) step)) [0..num - 1] ! i)"
    using linspace_elements [OF assms, of start stop] by blast
  let ?xs = "map (\<lambda>i. fadd start (fmul (rnd (of_int i)) step)) [0..num - 1]"
  have sorted: "sorted_wrt fle ?xs"
    if ab: "start = Fin a" "stop = Fin b" and le: "a \<le> b" and fin: "is_finite (fsub stop start)"
    for a b
  proof -
    have "is_finite (fsub (Fin b) (Fin a))" using fin ab by simp
    then obtain s where "axis_step (Fin a) (Fin b) num = Inr (Fin s)" "0 \<le> s"
      using axis_step_nonneg [OF assms le] by blast
    then have "step = Fin s" "0 \<le> s" using step(1) ab by simp_all
    then show ?thesis using axis_sorted [OF _ assms(2), of s a] ab(1) by simp
  qed
  have spaced: "\<exists>s. step = Fin s \<and>
                 \<bar>s - (b - a) / of_int (num - 1)\<bar> \<le> max \<bar>a\<bar> \<bar>b\<bar> / 2 ^ 49 + 1 / 2 ^ 1073 \<and>
                 (\<forall>i. Suc i < nat num \<longrightarrow>
                    (\<exists>x y. ?xs ! i = Fin x \<and> ?xs ! Suc i = Fin y \<and>
                       \<bar>y - x - s\<bar> \<le> max \<bar>a\<bar> \<bar>b\<bar> / 2 ^ 48 + of_int num / 2 ^ 1072))"
    if ab: "start = Fin a" "stop = Fin b" and bd: "\<bar>a\<bar> \<le> 2 ^ 1021" "\<bar>b\<bar> \<le> 2 ^ 1021" for a b
  proof -
    obtain s where s: "axis_step (Fin a) (Fin b) num = Inr (Fin s)"
      "\<bar>s - (b - a) / of_int (num - 1)\<bar> \<le> max \<bar>a\<bar> \<bar>b\<bar> / 2 ^ 49 + 1 / 2 ^ 1073"
      and sp: "\<forall>i. 0 \<le> i \<and> i + 1 \<le> num - 1 \<longrightarrow>
              (\<exists>x y. fadd (Fin a) (fmul (rnd (of_int i)) (Fin s)) = Fin x \<and>
                     fadd (Fin a) (fmul (rnd (of_int (i + 1))) (Fin s)) = Fin y \<and>
                     \<bar>y - x - s\<bar> \<le> max \<bar>a\<bar> \<bar>b\<bar> / 2 ^ 48 + of_int num / 2 ^ 1072)"
      using sample_spacing [OF assms bd] by blast
    have st: "step = Fin s" using s(1) step(1) ab by simp
    have "\<exists>x y. ?xs ! i = Fin x \<and> ?xs ! Suc i = Fin y \<and>
                \<bar>y - x - s\<bar> \<le> max \<bar>a\<bar> \<bar>b\<bar> / 2 ^ 48 + of_int num / 2 ^ 1072"
      if i: "Suc i < nat num" for i
    proof -
      have r: "0 \<le> int i \<and> int i + 1 \<le> num - 1" using i by linarith
      have e0: "?xs ! i = fadd (Fin a) (fmul (rnd (of_int (int i))) (Fin s))"
        using i ab(1) st by simp
      have "[0..num - 1] ! Suc i = int i + 1" using i by (simp add: nth_upto)
      then have e1: "?xs ! Suc i = fadd (Fin a) (fmul (rnd (of_int (int i + 1))) (Fin s))"
        using i ab(1) st by (simp add: add.commute)
      show ?thesis unfolding e0 e1 using sp r by blast
    qed
    then show ?thesis using st s(2) by blast
  qed
  have len: "length ?xs = nat num" by simp
  show ?thesis
    using step len spaced sorted by (intro exI [of _ step] exI [of _ ?xs]) blast
qed

theorem linspace_spacing_and_order_witness:
  "(1::int) < 7 \<and> (7::int) \<le> 2 ^ 1023 \<and> \<bar>0 :: rat\<bar> \<le> 2 ^ 1021 \<and> \<bar>1 :: rat\<bar> \<le> 2 ^ 1021 \<and>
   (0::rat) \<le> 1 \<and> is_finite (fsub (Fin 1) (Fin 0)) \<and> Suc 2 < nat 7 \<and>
   (\<exists>xs s x y. linspace (Fin 0) (Fin 1) 7 = Inr xs \<and> length xs = 7 \<and> sorted_wrt fle xs \<and>
      axis_step (Fin 0) (Fin 1) 7 = Inr (Fin s) \<and>
      \<bar>s - 1 / 6\<bar> \<le> 1 / 2 ^ 49 + 1 / 2 ^ 1073 \<and>
      xs ! 2 = Fin x \<and> xs ! 3 = Fin y \<and> \<bar>y - x - s\<bar> \<le> 1 / 2 ^ 48 + 7 / 2 ^ 1072)"
proof -
  have f: "is_finite (fsub (Fin 1) (Fin 0))" by (simp add: fsub_def rnd_eval)
  obtain step xs where w: "axis_step (Fin 0) (Fin 1) 7 = Inr step"
    "linspace (Fin 0) (Fin 1) 7 = Inr xs" "length xs = nat 7"
    and sp: "\<forall>a b. Fin 0 = Fin a \<and> Fin 1 = Fin b \<and> \<bar>a\<bar> \<le> 2 ^ 1021 \<and> \<bar>b\<bar> \<le> 2 ^ 1021 \<longrightarrow>
              (\<exists>s. step = Fin s \<and>
                 \<bar>s - (b - a) / of_int (7 - 1)\<bar> \<le> max \<bar>a\<bar> \<bar>b\<bar> / 2 ^ 49 + 1 / 2 ^ 1073 \<and>
                 (\<forall>i. Suc i < nat 7 \<longrightarrow>
                    (\<exists>x y. xs ! i = Fin x \<and> xs ! Suc i = Fin y \<and>
                       \<bar>y - x - s\<bar> \<le> max \<bar>a\<bar> \<bar>b\<bar> / 2 ^ 48 + of_int 7 / 2 ^ 1072)))"
    and so: "\<forall>a b. Fin 0 = Fin a \<and> Fin 1 = Fin b \<and> a \<le> b \<and> is_finite (fsub (Fin 1) (Fin 0))
       \<longrightarrow> sorted_wrt fle xs"
    using linspace_spacing_and_order [of 7 "Fin 0" "Fin 1"] by auto
  have b: "\<bar>0 :: rat\<bar> \<le> 2 ^ 1021" "\<bar>1 :: rat\<bar> \<le> 2 ^ 1021" by simp_all
  obtain s where s: "step = Fin s"
    "\<bar>s - (1 - 0) / of_int (7 - 1)\<bar> \<le> max \<bar>0\<bar> \<bar>1 :: rat\<bar> / 2 ^ 49 + 1 / 2 ^ 1073"
    and gaps: "\<forall>i. Suc i < nat 7 \<longrightarrow>
                    (\<exists>x y. xs ! i = Fin x \<and> xs ! Suc i = Fin y \<and>
                       \<bar>y - x - s\<bar> \<le> max \<bar>0\<bar> \<bar>1 :: rat\<bar> / 2 ^ 48 + of_int 7 / 2 ^ 1072)"
    using sp [rule_format, of 0 1] b by blast
  have "Suc 2 < nat 7" by simp
  then obtain x y where xy: "xs ! 2 = Fin x" "xs ! Suc 2 = Fin y"
    "\<bar>y - x - s\<bar> \<le> max \<bar>0\<bar> \<bar>1 :: rat\<bar> / 2 ^ 48 + of_int 7 / 2 ^ 1072"
    using gaps by blast
  have sorted: "sorted_wrt fle xs" using so f by simp
  have s1: "\<bar>s - 1 / 6\<bar> \<le> 1 / 2 ^ 49 + 1 / 2 ^ 1073" using s(2) by simp
  have g1: "\<bar>y - x - s\<bar> \<le> 1 / 2 ^ 48 + 7 / 2 ^ 1072" using xy(3) by simp
  have x3: "xs ! 3 = Fin y" using xy(2) by (simp add: numeral_3_eq_3)
  show ?thesis
    using w(1,2,3) s(1) sorted s1 g1 xy(1) x3 f b by auto
qed

text \<open>
  Claim C8 as the spec states it (consecutive elements differ by the constant step)
  fails on the code beyond the last bit: in \<^verbatim>\<open>linspace(2.0**53, 2.0**53 + 4, 5)\<close> the step
  is \<open>1.0\<close>, but floats of that size are \<open>2\<close> apart, so the five elements are
  \<open>2^53, 2^53, 2^53+2, 2^53+4, 2^53+4\<close>: consecutive elements differ by \<open>0\<close> or by \<open>2\<close>,
  never by the step.
\<close>

theorem step_below_float_spacing:
  "axis_step (Fin 9007199254740992) (Fin 9007199254740996) 5 = Inr (Fin 1) \<and>
   linspace (Fin 9007199254740992) (Fin 9007199254740996) 5 =
     Inr [Fin 9007199254740992, Fin 9007199254740992, Fin 9007199254740994,
          Fin 9007199254740996, Fin 9007199254740996] \<and>
   fsub (Fin 9007199254740992) (Fin 9007199254740992) = Fin 0 \<and>
   fsub (Fin 9007199254740994) (Fin 9007199254740992) = Fin 2"
  using coarse_axis by (simp add: fsub_def rnd_eval)

end
